theory Spec2Isabelle
  imports Complex_Main "HOL-Library.Multiset"
begin

section \<open>VATCalculator\<close>

text \<open>
  \<^verbatim>\<open>calculateVAT(supplyAmount)\<close> returns \<^verbatim>\<open>0\<close> when the argument is falsy or NaN and
  \<^verbatim>\<open>Math.ceil(supplyAmount * 0.1)\<close> otherwise. A JavaScript number is an IEEE 754 double, and
  the literal \<^verbatim>\<open>0.1\<close> is the double \<open>3602879701896397 / 2^55\<close>. The product of an
  integer-valued double \<open>s\<close> with it is the exact product \<open>s * 3602879701896397 / 2^55\<close> rounded to
  the nearest double (53 significant bits, ties to even). The model keeps the numerator over
  \<open>2^55\<close> as an integer, so the rounding is exact integer arithmetic. \<open>JNum s\<close> stands for
  the double whose value is the integer \<open>s\<close>; \<open>isDoubleInt s\<close> says that such a double exists.
  Products of a finite double with \<open>0.1\<close> neither overflow nor become subnormal for a nonzero
  integer.
\<close>

datatype jsval = JNull | JUndefined | JNaN | JNum int

text \<open>The number of binary digits of a positive integer.\<close>

fun bitlen :: "int \<Rightarrow> nat" where
  "bitlen n = (if n \<le> 0 then 0 else Suc (bitlen (n div 2)))"

text \<open>Round an integer to 53 significant bits, to nearest, ties to even.\<close>

definition roundToDouble :: "int \<Rightarrow> int" where
  "roundToDouble n =
     (let b = bitlen n in
      if b \<le> 53 then n
      else let sh = b - 53;
               q = n div 2 ^ sh;
               r = n mod 2 ^ sh;
               half = 2 ^ (sh - 1)
           in (if half < r \<or> (r = half \<and> odd q) then q + 1 else q) * 2 ^ sh)"

definition isDoubleInt :: "int \<Rightarrow> bool" where
  "isDoubleInt n = (roundToDouble \<bar>n\<bar> = \<bar>n\<bar>)"

text \<open>The numerator of the double \<^verbatim>\<open>0.1\<close> over \<open>2^55\<close>.\<close>

definition tenth :: int where
  "tenth = 3602879701896397"

text \<open>\<^verbatim>\<open>s * 0.1\<close> in double arithmetic, as a numerator over \<open>2^55\<close>.\<close>

definition mulTenth :: "int \<Rightarrow> int" where
  "mulTenth s = sgn s * roundToDouble (\<bar>s\<bar> * tenth)"

text \<open>\<^verbatim>\<open>Math.ceil\<close> of the double \<open>v / 2^55\<close>.\<close>

definition ceil55 :: "int \<Rightarrow> int" where
  "ceil55 v = - ((- v) div 2 ^ 55)"

definition calculateVAT :: "jsval \<Rightarrow> int" where
  "calculateVAT supplyAmount =
     (case supplyAmount of
        JNull \<Rightarrow> 0
      | JUndefined \<Rightarrow> 0
      | JNaN \<Rightarrow> 0
      | JNum s \<Rightarrow> if s = 0 then 0 else ceil55 (mulTenth s))"



section \<open>Strings and regular expressions\<close>

text \<open>
  A JavaScript string is a sequence of UTF-16 code units; a code unit is modelled by its
  integer value, so the Hangul syllables of the keyword tables are single elements
  (for instance \<open>45800\<close> and \<open>44032\<close> for the two syllables of the unit-price label).
  \<open>ascii\<close> turns an ASCII literal into such a string.
\<close>

type_synonym jsstring = "int list"

definition ascii :: "string \<Rightarrow> jsstring" where
  "ascii s = map of_char s"

text \<open>The class \<^verbatim>\<open>\s\<close> of a regular expression, which is also what \<^verbatim>\<open>trim()\<close> removes:
  the white space and line terminator code units of ECMAScript.\<close>

definition isSpace :: "int \<Rightarrow> bool" where
  "isSpace c = (c = 9 \<or> c = 10 \<or> c = 11 \<or> c = 12 \<or> c = 13 \<or> c = 32 \<or> c = 160 \<or> c = 5760
     \<or> (8192 \<le> c \<and> c \<le> 8202) \<or> c = 8232 \<or> c = 8233 \<or> c = 8239 \<or> c = 8287
     \<or> c = 12288 \<or> c = 65279)"

definition isDigit :: "int \<Rightarrow> bool" where
  "isDigit c = (48 \<le> c \<and> c \<le> 57)"

definition isLatin :: "int \<Rightarrow> bool" where
  "isLatin c = ((65 \<le> c \<and> c \<le> 90) \<or> (97 \<le> c \<and> c \<le> 122))"

text \<open>The Hangul syllable block, the range written \<^verbatim>\<open>[U+AC00-U+D7A3]\<close> in the source.\<close>

definition isHangul :: "int \<Rightarrow> bool" where
  "isHangul c = (44032 \<le> c \<and> c \<le> 55203)"

definition isWordChar :: "int \<Rightarrow> bool" where
  "isWordChar c = (isDigit c \<or> isLatin c \<or> c = 95)"

text \<open>
  Case folding of the flag \<^verbatim>\<open>i\<close>. Every pattern character of this program is an ASCII
  character or a Hangul character; for those, ECMAScript's canonicalisation identifies exactly
  the two cases of an ASCII letter and nothing else.
\<close>

definition canon :: "int \<Rightarrow> int" where
  "canon c = (if 97 \<le> c \<and> c \<le> 122 then c - 32 else c)"

definition trim :: "jsstring \<Rightarrow> jsstring" where
  "trim s = rev (dropWhile isSpace (rev (dropWhile isSpace s)))"

text \<open>\<^verbatim>\<open>Array.prototype.join\<close> with a separator.\<close>

fun joinWith :: "jsstring \<Rightarrow> jsstring list \<Rightarrow> jsstring" where
  "joinWith sep [] = []"
| "joinWith sep [x] = x"
| "joinWith sep (x # y # ys) = x @ sep @ joinWith sep (y # ys)"

text \<open>\<^verbatim>\<open>replace(/\s+/g, ' ')\<close>: every maximal run of white space becomes one space.\<close>

function squeezeSpaces :: "jsstring \<Rightarrow> jsstring" where
  "squeezeSpaces [] = []"
| "squeezeSpaces (c # cs) =
     (if isSpace c then 32 # squeezeSpaces (dropWhile isSpace cs) else c # squeezeSpaces cs)"
  by pat_completeness auto
termination
  by (relation "measure length") (auto simp: le_imp_less_Suc length_dropWhile_le)

text \<open>\<^verbatim>\<open>replace(/\s{2,}/g, ' ')\<close>: every maximal run of two or more white space
  characters becomes one space; a single one stays as it is.\<close>

function collapseSpaces :: "jsstring \<Rightarrow> jsstring" where
  "collapseSpaces [] = []"
| "collapseSpaces (c # cs) =
     (if isSpace c \<and> (case cs of [] \<Rightarrow> False | d # _ \<Rightarrow> isSpace d)
      then 32 # collapseSpaces (dropWhile isSpace cs)
      else c # collapseSpaces cs)"
  by pat_completeness auto
termination
  by (relation "measure length") (auto simp: le_imp_less_Suc length_dropWhile_le)

text \<open>\<^verbatim>\<open>s.replace(p, r)\<close> with a string pattern: the first occurrence only.\<close>

fun replaceFirstStr :: "jsstring \<Rightarrow> jsstring \<Rightarrow> jsstring \<Rightarrow> jsstring" where
  "replaceFirstStr p r [] = (if p = [] then r else [])"
| "replaceFirstStr p r (c # cs) =
     (if take (length p) (c # cs) = p then r @ drop (length p) (c # cs)
      else c # replaceFirstStr p r cs)"

text \<open>The integer that a string of decimal digits denotes. For a string of one or two digits
  this is \<^verbatim>\<open>parseInt(n, 10)\<close>.\<close>

definition parseDigits :: "jsstring \<Rightarrow> int" where
  "parseDigits s = foldl (\<lambda>a c. 10 * a + (c - 48)) 0 s"

subsection \<open>A backtracking matcher\<close>

text \<open>
  Regular expressions are values of \<open>rx\<close>, and \<open>rmatch\<close> is a backtracking matcher in the
  style of the ECMAScript specification: from a position it returns every way to match, in
  the order in which a backtracking engine tries them, so the first element is the match
  JavaScript reports. \<open>Star\<close> is the greedy \<^verbatim>\<open>*\<close> and \<open>Lazy\<close> the non-greedy \<^verbatim>\<open>*?\<close>; an
  iteration that consumes nothing is rejected, as in ECMAScript, so the number of iterations
  is bounded by the length of the remaining input. \<open>Grp k\<close> is a capturing group.
  \<open>Bol\<close>, \<open>Eol\<close> and \<open>WordB\<close> are \<^verbatim>\<open>^\<close>, \<^verbatim>\<open>$\<close> (no flag \<^verbatim>\<open>m\<close> occurs) and \<^verbatim>\<open>\b\<close>.
  A match state holds the consumed input (reversed), the remaining input and the captures.
\<close>

record mstate =
  consumed :: jsstring
  rest :: jsstring
  caps :: "(nat \<times> jsstring) list"

datatype rx = Chr "int \<Rightarrow> bool" | Eps | Seq rx rx | Alt rx rx | Star rx | Lazy rx
  | Grp nat rx | Bol | Eol | WordB

primrec star_greedy :: "nat \<Rightarrow> (mstate \<Rightarrow> mstate list) \<Rightarrow> mstate \<Rightarrow> mstate list" where
  "star_greedy 0 f st = [st]"
| "star_greedy (Suc n) f st =
     concat (map (star_greedy n f) (filter (\<lambda>s'. length (rest s') < length (rest st)) (f st))) @ [st]"

primrec star_lazy :: "nat \<Rightarrow> (mstate \<Rightarrow> mstate list) \<Rightarrow> mstate \<Rightarrow> mstate list" where
  "star_lazy 0 f st = [st]"
| "star_lazy (Suc n) f st =
     st # concat (map (star_lazy n f) (filter (\<lambda>s'. length (rest s') < length (rest st)) (f st)))"

definition atWordBoundary :: "mstate \<Rightarrow> bool" where
  "atWordBoundary st =
     ((case consumed st of [] \<Rightarrow> False | c # _ \<Rightarrow> isWordChar c)
      \<noteq> (case rest st of [] \<Rightarrow> False | c # _ \<Rightarrow> isWordChar c))"

primrec rmatch :: "rx \<Rightarrow> mstate \<Rightarrow> mstate list" where
  "rmatch (Chr P) = (\<lambda>st. case rest st of [] \<Rightarrow> []
       | c # cs \<Rightarrow> if P c then [st\<lparr>consumed := c # consumed st, rest := cs\<rparr>] else [])"
| "rmatch Eps = (\<lambda>st. [st])"
| "rmatch (Seq a b) = (\<lambda>st. concat (map (rmatch b) (rmatch a st)))"
| "rmatch (Alt a b) = (\<lambda>st. rmatch a st @ rmatch b st)"
| "rmatch (Star a) = (\<lambda>st. star_greedy (length (rest st)) (rmatch a) st)"
| "rmatch (Lazy a) = (\<lambda>st. star_lazy (length (rest st)) (rmatch a) st)"
| "rmatch (Grp k a) = (\<lambda>st. map (\<lambda>s'. s'\<lparr>caps :=
       (k, take (length (rest st) - length (rest s')) (rest st)) # caps s'\<rparr>) (rmatch a st))"
| "rmatch Bol = (\<lambda>st. if consumed st = [] then [st] else [])"
| "rmatch Eol = (\<lambda>st. if rest st = [] then [st] else [])"
| "rmatch WordB = (\<lambda>st. if atWordBoundary st then [st] else [])"

text \<open>Pattern building blocks.\<close>

definition lit :: "int \<Rightarrow> rx" where
  "lit c = Chr (\<lambda>x. x = c)"

definition chrI :: "int \<Rightarrow> rx" where
  "chrI c = Chr (\<lambda>x. canon x = canon c)"

definition ws :: rx where
  "ws = Chr isSpace"

definition digit :: rx where
  "digit = Chr isDigit"

fun seqs :: "rx list \<Rightarrow> rx" where
  "seqs [] = Eps"
| "seqs [r] = r"
| "seqs (r # rs) = Seq r (seqs rs)"

fun alts :: "rx list \<Rightarrow> rx" where
  "alts [] = Eps"
| "alts [r] = r"
| "alts (r # rs) = Alt r (alts rs)"

definition str :: "jsstring \<Rightarrow> rx" where
  "str s = seqs (map lit s)"

definition strI :: "jsstring \<Rightarrow> rx" where
  "strI s = seqs (map chrI s)"

definition rxOpt :: "rx \<Rightarrow> rx" where
  "rxOpt r = Alt r Eps"

definition rxPlus :: "rx \<Rightarrow> rx" where
  "rxPlus r = Seq r (Star r)"

primrec rxTimes :: "nat \<Rightarrow> rx \<Rightarrow> rx" where
  "rxTimes 0 r = Eps"
| "rxTimes (Suc n) r = Seq r (rxTimes n r)"

primrec rxUpTo :: "nat \<Rightarrow> rx \<Rightarrow> rx" where
  "rxUpTo 0 r = Eps"
| "rxUpTo (Suc n) r = Alt (Seq r (rxUpTo n r)) Eps"

text \<open>\<^verbatim>\<open>r{m,n}\<close> and \<^verbatim>\<open>r{m,}\<close>.\<close>

definition rxRep :: "nat \<Rightarrow> nat \<Rightarrow> rx \<Rightarrow> rx" where
  "rxRep m n r = Seq (rxTimes m r) (rxUpTo (n - m) r)"

definition rxAtLeast :: "nat \<Rightarrow> rx \<Rightarrow> rx" where
  "rxAtLeast m r = Seq (rxTimes m r) (Star r)"

text \<open>The first way to match at the current position (a sticky match).\<close>

definition matchHere :: "rx \<Rightarrow> jsstring \<Rightarrow> jsstring \<Rightarrow> mstate option" where
  "matchHere r pre s = (case rmatch r \<lparr>consumed = pre, rest = s, caps = []\<rparr> of
      [] \<Rightarrow> None | st # _ \<Rightarrow> Some st)"

text \<open>The leftmost match at or after the current position, with its start index.\<close>

fun searchFrom :: "rx \<Rightarrow> jsstring \<Rightarrow> jsstring \<Rightarrow> (nat \<times> mstate) option" where
  "searchFrom r pre [] = map_option (Pair (length pre)) (matchHere r pre [])"
| "searchFrom r pre (c # cs) = (case matchHere r pre (c # cs) of
       Some st \<Rightarrow> Some (length pre, st)
     | None \<Rightarrow> searchFrom r (c # pre) cs)"

text \<open>\<^verbatim>\<open>re.exec(s)\<close> and \<^verbatim>\<open>s.match(re)\<close> without the flag \<^verbatim>\<open>g\<close>; \<^verbatim>\<open>re.test(s)\<close>.\<close>

definition rx_exec :: "rx \<Rightarrow> jsstring \<Rightarrow> (nat \<times> mstate) option" where
  "rx_exec r s = searchFrom r [] s"

definition rx_test :: "rx \<Rightarrow> jsstring \<Rightarrow> bool" where
  "rx_test r s = (rx_exec r s \<noteq> None)"

text \<open>The text of capture group \<open>k\<close> of a match (\<^verbatim>\<open>m[k]\<close>), if the group took part.\<close>

definition capture :: "nat \<Rightarrow> mstate \<Rightarrow> jsstring option" where
  "capture k st = map_of (caps st) k"

text \<open>The text of a group that is known to take part in every match of its pattern.\<close>

definition captureText :: "nat \<Rightarrow> mstate \<Rightarrow> jsstring" where
  "captureText k st = (case capture k st of None \<Rightarrow> [] | Some g \<Rightarrow> g)"

text \<open>The whole matched text \<^verbatim>\<open>m[0]\<close> of a match of \<open>s\<close> starting at index \<open>i\<close>.\<close>

definition matched :: "jsstring \<Rightarrow> nat \<Rightarrow> mstate \<Rightarrow> jsstring" where
  "matched s i st = take (length s - i - length (rest st)) (drop i s)"

text \<open>\<^verbatim>\<open>s.replace(re, new)\<close> without the flag \<^verbatim>\<open>g\<close>.\<close>

definition replaceFirst :: "rx \<Rightarrow> jsstring \<Rightarrow> jsstring \<Rightarrow> jsstring" where
  "replaceFirst r new s = (case rx_exec r s of None \<Rightarrow> s
     | Some (i, st) \<Rightarrow> take i s @ new @ rest st)"

text \<open>
  The successive matches of \<^verbatim>\<open>while ((m = re.exec(s)))\<close> for a pattern with the flag
  \<^verbatim>\<open>g\<close>: each search starts where the previous match ended. The patterns used this way
  match at least one character, so the position advances; the definition stops at an empty
  match.
\<close>

function execAll :: "rx \<Rightarrow> jsstring \<Rightarrow> jsstring \<Rightarrow> (nat \<times> mstate) list" where
  "execAll r pre s = (case searchFrom r pre s of
       None \<Rightarrow> []
     | Some (i, st) \<Rightarrow>
         if length (rest st) < length s then (i, st) # execAll r (consumed st) (rest st)
         else [(i, st)])"
  by pat_completeness auto
termination
  by (relation "measure (\<lambda>(r, pre, s). length s)") auto

text \<open>
  \<^verbatim>\<open>s.split(re)\<close>, as the ECMAScript algorithm does it: at each position \<open>q\<close> the pattern is
  matched at \<open>q\<close> exactly; a match that ends where the current piece starts is skipped.
  \<open>piece\<close> is the current piece, reversed.
\<close>

function splitLoop :: "rx \<Rightarrow> jsstring \<Rightarrow> jsstring \<Rightarrow> jsstring \<Rightarrow> jsstring list" where
  "splitLoop r pre piece [] = [rev piece]"
| "splitLoop r pre piece (c # cs) = (case matchHere r pre (c # cs) of
       None \<Rightarrow> splitLoop r (c # pre) (c # piece) cs
     | Some st \<Rightarrow>
         (let k = Suc (length cs) - length (rest st) in
          if k = 0 \<and> piece = [] then splitLoop r (c # pre) (c # piece) cs
          else rev piece # splitLoop r (rev (take k (c # cs)) @ pre) [] (drop k (c # cs))))"
  by pat_completeness auto
termination
  by (relation "measure (\<lambda>(r, pre, piece, s). 2 * length s + (if piece = [] then 0 else 1))") auto

definition rx_split :: "rx \<Rightarrow> jsstring \<Rightarrow> jsstring list" where
  "rx_split r s = (if s = [] then (if matchHere r [] [] = None then [[]] else [])
                   else splitLoop r [] [] s)"

subsection \<open>Columns of a line\<close>

text \<open>\<^verbatim>\<open>/\s*\|\s*$/\<close> and \<^verbatim>\<open>/\s*\|\s*/\<close>.\<close>

definition trailingBarRx :: rx where
  "trailingBarRx = seqs [Star ws, lit 124, Star ws, Eol]"

definition barRx :: rx where
  "barRx = seqs [Star ws, lit 124, Star ws]"

definition splitToCols :: "jsstring \<Rightarrow> jsstring list" where
  "splitToCols line =
     filter (\<lambda>s. s \<noteq> []) (map trim (rx_split barRx (replaceFirst trailingBarRx [] line)))"

section \<open>TableLocator\<close>

text \<open>
  \<^verbatim>\<open>FOOTER_MARKER_REGEX\<close>: one or more \<^verbatim>\<open>=\<close>, an optional lead character out of
  a class of look-alikes (taken modulo case, the flag \<^verbatim>\<open>i\<close>), the three Hangul syllables
  of the banner, and one or more \<^verbatim>\<open>=\<close>, with optional white space between the parts.
\<close>

definition classI :: "int list \<Rightarrow> rx" where
  "classI cs = Chr (\<lambda>x. canon x \<in> set (map canon cs))"

definition FOOTER_MARKER_REGEX :: rx where
  "FOOTER_MARKER_REGEX =
     seqs [rxPlus (lit 61), Star ws,
           rxOpt (Seq (classI [51060, 12643, 73, 124, 108, 49, 50500]) (Star ws)),
           strI [54616, 50668, 48177], Star ws, rxPlus (lit 61)]"

text \<open>The unit-price keyword (two Hangul syllables) and the assignee keyword (three).\<close>

definition kwUnitPrice :: jsstring where
  "kwUnitPrice = [45800, 44032]"

definition kwAssignee :: jsstring where
  "kwAssignee = [51064, 49688, 51088]"

text \<open>
  \<^verbatim>\<open>makeLooseRegexFromKeyword\<close>: the characters of the keyword, each escaped (so literal),
  joined by \<^verbatim>\<open>\s*\<close>, with the flag \<^verbatim>\<open>i\<close>. \<^verbatim>\<open>buildVariantsRegex\<close>: one group holding
  the alternatives, in order.
\<close>

fun makeLooseRegexFromKeyword :: "jsstring \<Rightarrow> rx" where
  "makeLooseRegexFromKeyword [] = Eps"
| "makeLooseRegexFromKeyword [c] = chrI c"
| "makeLooseRegexFromKeyword (c # d # cs) =
     Seq (chrI c) (Seq (Star ws) (makeLooseRegexFromKeyword (d # cs)))"

definition buildVariantsRegex :: "jsstring list \<Rightarrow> rx" where
  "buildVariantsRegex variants = Grp 1 (alts (map makeLooseRegexFromKeyword variants))"

text \<open>\<^verbatim>\<open>replace(/\s+/g, '')\<close>.\<close>

definition stripSpaces :: "jsstring \<Rightarrow> jsstring" where
  "stripSpaces s = filter (\<lambda>c. \<not> isSpace c) s"

record rowRef =
  rowIndex :: nat

record stitchHit = rowRef +
  startCol :: nat
  endCol :: nat
  stitched :: jsstring
  normalized :: jsstring

record cellHit = rowRef +
  colIndex :: nat
  cellValue :: jsstring
  cellLine :: jsstring

datatype footerKind = FooterMarker | Assignee

record footerHit = rowRef +
  footerKind :: footerKind
  footerCol :: "nat option"
  footerValue :: jsstring
  footerLine :: jsstring

text \<open>
  \<^verbatim>\<open>findStitchedKeywords\<close>: for every row \<open>r\<close>, every start column \<open>i\<close> and every span from
  \<open>1\<close> while \<open>span \<le> maxSpan\<close> and \<open>i + span - 1\<close> is a column, the columns
  \<open>i .. i + span - 1\<close> joined by one space; a hit when that text without white space is a
  target.
\<close>

definition findStitchedKeywords :: "jsstring list \<Rightarrow> jsstring list \<Rightarrow> nat \<Rightarrow> stitchHit list" where
  "findStitchedKeywords lines baseKeywords maxSpan =
     (let targets = map stripSpaces baseKeywords in
      concat (map (\<lambda>(r, txt).
        let cols = splitToCols txt in
        concat (map (\<lambda>i.
          concat (map (\<lambda>span.
            let st = joinWith [32] (take span (drop i cols)); nm = stripSpaces st in
            if nm \<in> set targets
            then [\<lparr>rowIndex = r, startCol = i, endCol = i + span - 1, stitched = st, normalized = nm\<rparr>]
            else [])
          (takeWhile (\<lambda>span. i + span - 1 < length cols) [1..<Suc maxSpan])))
        [0..<length cols]))
      (enumerate 0 lines)))"

definition findCellsByKeywords :: "jsstring list \<Rightarrow> jsstring list \<Rightarrow> cellHit list" where
  "findCellsByKeywords lines variants =
     (let regex = buildVariantsRegex variants in
      concat (map (\<lambda>(r, txt).
        map (\<lambda>(c, v). \<lparr>rowIndex = r, colIndex = c, cellValue = v, cellLine = txt\<rparr>)
            (filter (\<lambda>(c, v). rx_test regex v) (enumerate 0 (splitToCols txt))))
      (enumerate 0 lines)))"

definition getCell :: "jsstring list \<Rightarrow> nat \<Rightarrow> nat \<Rightarrow> jsstring option" where
  "getCell lines r c =
     (if length lines \<le> r then None
      else let cols = splitToCols (lines ! r) in
           if c < length cols then Some (cols ! c) else None)"

text \<open>
  \<^verbatim>\<open>Map.prototype.set\<close> on an insertion-ordered map: a present key keeps its place, a new
  key goes last. The source's key string \<^verbatim>\<open>r:s-e\<close> is modelled by the triple \<open>(r, s, e)\<close>.
\<close>

fun mapSet :: "'k \<Rightarrow> 'v \<Rightarrow> ('k \<times> 'v) list \<Rightarrow> ('k \<times> 'v) list" where
  "mapSet k v [] = [(k, v)]"
| "mapSet k v (p # ps) = (if fst p = k then (k, v) # ps else p # mapSet k v ps)"

definition hitKey :: "stitchHit \<Rightarrow> nat \<times> nat \<times> nat" where
  "hitKey h = (rowIndex h, startCol h, endCol h)"

text \<open>
  \<^verbatim>\<open>checkIsItHeaderLine\<close>. Nothing in the body of its \<^verbatim>\<open>try\<close> can throw on an array of
  strings, so the \<^verbatim>\<open>catch\<close> branch has no counterpart here.
\<close>

definition checkIsItHeaderLine :: "jsstring list \<Rightarrow> stitchHit list" where
  "checkIsItHeaderLine lines =
     (let seedVariants = [[45800], [44032], kwUnitPrice];
          seeds = findCellsByKeywords lines seedVariants;
          stitchedHits = findStitchedKeywords lines [kwUnitPrice] 2;
          m1 = foldl (\<lambda>m s. mapSet (hitKey s) s m) [] stitchedHits;
          m2 = foldl (\<lambda>m s.
                 case getCell lines (rowIndex s) (colIndex s) of
                   None \<Rightarrow> m
                 | Some cell \<Rightarrow>
                     if cell \<noteq> [] \<and> stripSpaces cell = kwUnitPrice
                     then mapSet (rowIndex s, colIndex s, colIndex s)
                            \<lparr>rowIndex = rowIndex s, startCol = colIndex s, endCol = colIndex s,
                             stitched = cell, normalized = kwUnitPrice\<rparr> m
                     else m) m1 seeds
      in map snd m2)"

text \<open>\<^verbatim>\<open>xs.reduce((a, b) => (a.rowIndex <= b.rowIndex ? a : b))\<close> on a non-empty array.\<close>

definition earliestOf :: "('a rowRef_scheme) \<Rightarrow> ('a rowRef_scheme) list \<Rightarrow> 'a rowRef_scheme" where
  "earliestOf x xs = foldl (\<lambda>a b. if rowIndex a \<le> rowIndex b then a else b) x xs"

definition checkIsItFooterLine :: "jsstring list \<Rightarrow> footerHit list" where
  "checkIsItFooterLine lines =
     (case find (\<lambda>(r, txt). rx_test FOOTER_MARKER_REGEX txt) (enumerate 0 lines) of
        Some (r, txt) \<Rightarrow>
          [\<lparr>rowIndex = r, footerKind = FooterMarker, footerCol = None,
            footerValue = txt, footerLine = txt\<rparr>]
      | None \<Rightarrow>
          (case findCellsByKeywords lines [kwAssignee] of
             [] \<Rightarrow> []
           | h # hs \<Rightarrow>
               (let e = earliestOf h hs in
                [\<lparr>rowIndex = rowIndex e, footerKind = Assignee, footerCol = Some (colIndex e),
                  footerValue = cellValue e, footerLine = cellLine e\<rparr>])))"

record tableSlice =
  sliceStart :: "nat option"
  sliceEnd :: "int option"
  rows :: "jsstring list"

text \<open>\<^verbatim>\<open>Math.min(...xs)\<close> of a non-empty list of row indices.\<close>

definition minOf :: "nat \<Rightarrow> nat list \<Rightarrow> nat" where
  "minOf x xs = foldl min x xs"

text \<open>
  \<^verbatim>\<open>sliceRowsBetweenHeaderFooter\<close>. The fields \<^verbatim>\<open>start\<close> and \<^verbatim>\<open>end\<close> of the
  result are \<open>sliceStart\<close> and \<open>sliceEnd\<close>, with \<open>None\<close> for \<^verbatim>\<open>null\<close>; \<open>sliceEnd\<close> is an
  integer because the source clamps it to \<open>-1\<close> from below.
\<close>

definition sliceRowsBetweenHeaderFooter :: "jsstring list \<Rightarrow> tableSlice" where
  "sliceRowsBetweenHeaderFooter lines =
     (case checkIsItHeaderLine lines of
        [] \<Rightarrow> \<lparr>sliceStart = None, sliceEnd = None, rows = []\<rparr>
      | h # hs \<Rightarrow>
          (let headerIndex = minOf (rowIndex h) (map rowIndex hs) in
           case checkIsItFooterLine lines of
             [] \<Rightarrow> \<lparr>sliceStart = Some (headerIndex + 1), sliceEnd = None,
                    rows = drop (headerIndex + 1) lines\<rparr>
           | f # fs \<Rightarrow>
               (let firstFooter = earliestOf f fs;
                    start = min (max (headerIndex + 1) 0) (length lines);
                    endCut = (case footerKind firstFooter of
                                FooterMarker \<Rightarrow> int (rowIndex firstFooter) - 1
                              | Assignee \<Rightarrow> int (rowIndex firstFooter) - 2);
                    end' = max (min endCut (int (length lines) - 1)) (- 1)
                in \<lparr>sliceStart = Some start, sliceEnd = Some end',
                    rows = (if int start \<le> end' then take (nat (end' + 1) - start) (drop start lines)
                            else [])\<rparr>)))"

section \<open>RowParser\<close>

text \<open>
  The numbers that \<^verbatim>\<open>parseInt\<close> returns for a string of decimal digits are doubles: an
  integer that a double can hold, or \<^verbatim>\<open>Infinity\<close>. \<open>parseInt10\<close> is \<^verbatim>\<open>parseInt(n, 10)\<close> for
  such a string: the double nearest to the integer that the digits denote, ties to even, and
  \<^verbatim>\<open>Infinity\<close> when that is \<open>2^1024\<close>, beyond the largest double. \<open>numGe n k\<close> is the
  comparison \<^verbatim>\<open>n >= k\<close>.
\<close>

datatype jsnumber = Finite int | Infinite

definition parseInt10 :: "jsstring \<Rightarrow> jsnumber" where
  "parseInt10 n =
     (let v = roundToDouble (parseDigits n) in if 2 ^ 1024 \<le> v then Infinite else Finite v)"

definition numGe :: "jsnumber \<Rightarrow> int \<Rightarrow> bool" where
  "numGe n k = (case n of Finite v \<Rightarrow> k \<le> v | Infinite \<Rightarrow> True)"

text \<open>\<^verbatim>\<open>toIntStrict\<close>: the decimal digits of the text, read by \<^verbatim>\<open>parseInt\<close>; \<^verbatim>\<open>null\<close> when
  there is none.\<close>

definition toIntStrict :: "jsstring \<Rightarrow> jsnumber option" where
  "toIntStrict s = (let n = filter isDigit s in if n = [] then None else Some (parseInt10 n))"

text \<open>\<^verbatim>\<open>/^(\d{1,3}(,\d{3})+|\d{4,})$/\<close>\<close>

definition moneyRx :: rx where
  "moneyRx = seqs [Bol,
     Alt (Seq (rxRep 1 3 digit) (rxPlus (Seq (lit 44) (rxTimes 3 digit)))) (rxAtLeast 4 digit),
     Eol]"

definition isMoneyToken :: "jsstring \<Rightarrow> bool" where
  "isMoneyToken s = rx_test moneyRx (trim s)"

text \<open>
  The unit pattern shared by the four specification patterns:
  \<^verbatim>\<open>[0-9]+(?:\.[0-9]+)?\s*(?:kg|g|l|ml|cm|mm|ea)(?:\s*\*\s*\d+(?:\s*ea)?)?\<close>, flag \<^verbatim>\<open>i\<close>.
\<close>

definition unitAlt :: rx where
  "unitAlt = alts [strI (ascii ''kg''), strI (ascii ''g''), strI (ascii ''l''), strI (ascii ''ml''),
                   strI (ascii ''cm''), strI (ascii ''mm''), strI (ascii ''ea'')]"

definition specCore :: rx where
  "specCore = seqs [rxPlus digit, rxOpt (Seq (lit 46) (rxPlus digit)), Star ws, unitAlt,
     rxOpt (seqs [Star ws, lit 42, Star ws, rxPlus digit, rxOpt (Seq (Star ws) (strI (ascii ''ea'')))])]"

text \<open>The two patterns of \<^verbatim>\<open>extractSpecificationFromText\<close>: after a dash, and standalone
  between word boundaries.\<close>

definition extractPatterns :: "rx list" where
  "extractPatterns = [seqs [lit 45, Star ws, Grp 1 specCore], seqs [WordB, Grp 1 specCore, WordB]]"

fun firstSpec :: "rx list \<Rightarrow> jsstring \<Rightarrow> jsstring" where
  "firstSpec [] s = []"
| "firstSpec (re # res) s =
     (case rx_exec re s of
        None \<Rightarrow> firstSpec res s
      | Some (i, m) \<Rightarrow>
          (case capture 1 m of
             None \<Rightarrow> firstSpec res s
           | Some g \<Rightarrow> if g \<noteq> [] then trim (squeezeSpaces g) else firstSpec res s))"

definition extractSpecificationFromText :: "jsstring \<Rightarrow> jsstring" where
  "extractSpecificationFromText s = firstSpec extractPatterns s"

text \<open>The patterns of \<^verbatim>\<open>splitSpecFromItemName\<close>: the unit pattern with an optional
  trailing \<^verbatim>\<open>(?:\s+\d{1,3})?\<close>; the parenthesis pattern \<^verbatim>\<open>/\([^()]*\)/g\<close>; and
  \<^verbatim>\<open>/[-\<emdash>]\s*$/\<close> with the hyphen and the em dash (code unit \<open>8212\<close>).\<close>

definition specCore2 :: rx where
  "specCore2 = Seq specCore (rxOpt (Seq (rxPlus ws) (rxRep 1 3 digit)))"

definition afterDashRx :: rx where
  "afterDashRx = seqs [lit 45, Star ws, Grp 1 specCore2]"

definition standaloneRx :: rx where
  "standaloneRx = seqs [WordB, Grp 1 specCore2, WordB]"

definition parenRx :: rx where
  "parenRx = seqs [lit 40, Star (Chr (\<lambda>c. c \<noteq> 40 \<and> c \<noteq> 41)), lit 41]"

definition dashEndRx :: rx where
  "dashEndRx = seqs [Chr (\<lambda>c. c = 45 \<or> c = 8212), Star ws, Eol]"

record itemSpec =
  isItem :: jsstring
  isSpec :: jsstring

definition splitSpecFromItemName :: "jsstring \<Rightarrow> itemSpec" where
  "splitSpecFromItemName s =
     (let parenSpans = map (\<lambda>(i, m). (i, i + length (matched s i m))) (execAll parenRx [] s);
          isInsideParens = (\<lambda>idx. list_ex (\<lambda>(a, b). a \<le> idx \<and> idx < b) parenSpans)
      in case rx_exec afterDashRx s of
           Some (i, m) \<Rightarrow>
             \<lparr>isItem = trim (replaceFirst dashEndRx [] (take i s)),
              isSpec = trim (squeezeSpaces (captureText 1 m))\<rparr>
         | None \<Rightarrow>
             (case find (\<lambda>(i, m). \<not> isInsideParens i) (execAll standaloneRx [] s) of
                Some (i, m) \<Rightarrow>
                  \<lparr>isItem = trim (replaceFirst dashEndRx []
                              (collapseSpaces (replaceFirstStr (matched s i m) [] s))),
                   isSpec = trim (squeezeSpaces (captureText 1 m))\<rparr>
              | None \<Rightarrow> \<lparr>isItem = trim s, isSpec = []\<rparr>))"

text \<open>\<^verbatim>\<open>/^\d+$/\<close>, \<^verbatim>\<open>/^\d{1,2}$/\<close> and \<^verbatim>\<open>/[A-Za-z\<dots>]/\<close> (Latin or Hangul).\<close>

definition allDigitsRx :: rx where
  "allDigitsRx = seqs [Bol, rxPlus digit, Eol]"

definition quantityRx :: rx where
  "quantityRx = seqs [Bol, rxRep 1 2 digit, Eol]"

definition letterRx :: rx where
  "letterRx = Chr (\<lambda>c. isLatin c \<or> isHangul c)"

text \<open>\<^verbatim>\<open>normalizeDigits\<close>: \<^verbatim>\<open>replace(/[\s,.-]/g, '')\<close>.\<close>

definition normalizeDigits :: "jsstring \<Rightarrow> jsstring" where
  "normalizeDigits s = filter (\<lambda>c. \<not> (isSpace c \<or> c = 44 \<or> c = 46 \<or> c = 45)) s"

record parsedItem =
  item :: jsstring
  specification' :: "jsstring option"
  quantity :: "int option"
  unitPrice :: "jsnumber option"
  supplyAmount :: "jsnumber option"

text \<open>
  The loop that looks for a replacement item name in the later columns when the item name is
  purely numeric; it returns the item and the specification as the loop leaves them.
\<close>

fun repairItem :: "jsstring list \<Rightarrow> jsstring \<Rightarrow> jsstring \<Rightarrow> jsstring \<times> jsstring" where
  "repairItem [] it spec = (it, spec)"
| "repairItem (col # cols) it spec =
     (let candidate = trim col in
      if candidate = [] then repairItem cols it spec
      else let candNorm = normalizeDigits candidate in
           if \<not> rx_test allDigitsRx candNorm
              \<and> (rx_test letterRx candidate \<or> 0 < length candNorm)
           then (let split2 = splitSpecFromItemName candidate in
                 (isItem split2, if spec = [] then isSpec split2 else spec))
           else repairItem cols it spec)"

text \<open>The first index-adjacent pair of money entries (\<open>(index, value)\<close>), if any.\<close>

fun adjacentPair :: "(nat \<times> jsnumber) list \<Rightarrow> ((nat \<times> jsnumber) \<times> (nat \<times> jsnumber)) option" where
  "adjacentPair (a # b # ms) =
     (if fst b = fst a + 1 then Some (a, b) else adjacentPair (b # ms))"
| "adjacentPair ms = None"

definition parseItemRow :: "jsstring list \<Rightarrow> parsedItem option" where
  "parseItemRow cols =
     (if cols = [] then None
      else let rawItem = trim (hd cols) in
      if rawItem = [] then None
      else let split = splitSpecFromItemName rawItem;
               item0 = isItem split;
               spec0 = isSpec split;
               numericItem = rx_test allDigitsRx (normalizeDigits item0);
               (item1, spec1) = (if numericItem then repairItem (tl cols) item0 spec0
                                 else (item0, spec0))
      in if numericItem \<and> rx_test allDigitsRx (normalizeDigits item1) then None
      else let spec2 = (if spec1 = [] \<and> 1 < length cols
                        then (let nextCol = trim (cols ! 1) in
                              if \<not> rx_test quantityRx nextCol
                              then (let extracted = extractSpecificationFromText nextCol in
                                    if extracted \<noteq> [] then extracted else nextCol)
                              else spec1)
                        else spec1);
               spec3 = (if trim spec2 = [45] then None else Some spec2);
               quantityCandidates =
                 map (\<lambda>(i, c). (i, parseDigits (trim c)))
                     (filter (\<lambda>(i, c). rx_test quantityRx (trim c)) (enumerate 1 (tl cols)));
               q1 = (case quantityCandidates of [c] \<Rightarrow> Some c | _ \<Rightarrow> None);
               from = max 1 (case q1 of Some (i, n) \<Rightarrow> i + 1 | None \<Rightarrow> 1);
               money = concat (map (\<lambda>(i, token).
                          if \<not> isMoneyToken token then []
                          else (case toIntStrict token of
                                  None \<Rightarrow> []
                                | Some n \<Rightarrow> if numGe n 1000 then [(i, n)] else []))
                        (enumerate from (drop from cols)));
               (unit, supply) =
                 (case adjacentPair money of
                    Some (a, b) \<Rightarrow> (Some a, Some b)
                  | None \<Rightarrow>
                      (case money of
                         [] \<Rightarrow> (None, None)
                       | m0 # _ \<Rightarrow> (Some m0, find (\<lambda>m. fst m0 < fst m) money)))
      in case unit of
           None \<Rightarrow> None
         | Some (ui, un) \<Rightarrow>
             (let q2 = (if q1 = None \<and> quantityCandidates \<noteq> []
                        then find (\<lambda>q. fst q \<noteq> ui \<and> Some (fst q) \<noteq> map_option fst supply)
                               quantityCandidates
                        else q1)
              in Some \<lparr>item = item1, specification' = spec3,
                       quantity = map_option snd q2, unitPrice = Some un,
                       supplyAmount = map_option snd supply\<rparr>))"

definition parseItemsFromRows :: "jsstring list \<Rightarrow> parsedItem list" where
  "parseItemsFromRows rs =
     concat (map (\<lambda>line.
        case parseItemRow (splitToCols line) of
          None \<Rightarrow> []
        | Some row \<Rightarrow> if unitPrice row \<noteq> None then [row] else []) rs)"

section \<open>RowSanitizer\<close>

text \<open>The fourteen noise patterns of \<^verbatim>\<open>cleanRowsWithRules\<close>, in the order of the
  source; all carry the flag \<^verbatim>\<open>i\<close>.\<close>

definition rules :: "rx list" where
  "rules =
     [strI (ascii ''softcity.co.kr''),
      strI (ascii ''www.''),
      strI (ascii ''NO''),
      strI (ascii ''BOX''),
      strI (ascii ''EA''),
      strI [53945, 54728, 52636, 50896],
      seqs [strI (ascii ''0K''), Star ws, strI (ascii ''aF'')],
      seqs [strI [54408, 47785], Star ws, classI [45, 8211, 8212, 126], Star ws, strI [44508, 44201]],
      Grp 1 (Alt (strI [44221, 50689, 48149, 49324]) (strI [49, 50689, 48149, 49324])),
      seqs [Bol, strI [54408, 47785], Eol],
      seqs [Bol, rxOpt (lit 45), Star ws, strI [44508, 44201], Eol],
      seqs [Bol, strI [49688, 47049], Eol],
      seqs [Bol, rxRep 5 6 digit, lit 45, rxRep 2 5 digit, Eol],
      strI [48149, 49324]]"

definition hitsRule :: "jsstring \<Rightarrow> bool" where
  "hitsRule col = list_ex (\<lambda>re. rx_test re col) rules"

text \<open>\<^verbatim>\<open>isNumericToken\<close>: \<^verbatim>\<open>/^\d+(?:\.\d+)?$/\<close> on the text without white space and
  commas.\<close>

definition numericRx :: rx where
  "numericRx = seqs [Bol, rxPlus digit, rxOpt (Seq (lit 46) (rxPlus digit)), Eol]"

definition isNumericToken :: "jsstring \<Rightarrow> bool" where
  "isNumericToken s = rx_test numericRx (filter (\<lambda>c. \<not> (isSpace c \<or> c = 44)) s)"

text \<open>The tests of the prefix-pruning heuristic:
  \<^verbatim>\<open>/^(?:\d{1,2}\.\d{1,2}\s+\S+|[A-Za-z]{2,}\d{2,}|\d{6,})$/\<close>,
  \<^verbatim>\<open>/^(?:kg|g|l|ml|cm|mm|ea)$/i\<close> and \<^verbatim>\<open>/^\d{1,2}$/\<close>, each on the trimmed text.\<close>

definition prefixIdRx :: rx where
  "prefixIdRx = seqs [Bol,
     alts [seqs [rxRep 1 2 digit, lit 46, rxRep 1 2 digit, rxPlus ws, rxPlus (Chr (\<lambda>c. \<not> isSpace c))],
           Seq (rxAtLeast 2 (Chr isLatin)) (rxAtLeast 2 digit),
           rxAtLeast 6 digit],
     Eol]"

definition looksLikePrefixId :: "jsstring \<Rightarrow> bool" where
  "looksLikePrefixId s = rx_test prefixIdRx (trim s)"

definition isUnitToken :: "jsstring \<Rightarrow> bool" where
  "isUnitToken s = rx_test (seqs [Bol, unitAlt, Eol]) (trim s)"

definition isQuantityLike :: "jsstring \<Rightarrow> bool" where
  "isQuantityLike s = rx_test quantityRx (trim s)"

definition shouldPrune :: "jsstring list \<Rightarrow> bool" where
  "shouldPrune newCols =
     (7 \<le> length newCols \<and>
      (let others = tl newCols;
           hasUnit = list_ex isUnitToken others;
           quantityCount = length (filter isQuantityLike others);
           moneyCount = length (filter isMoneyToken others)
       in \<not> isMoneyToken (hd newCols) \<and> looksLikePrefixId (hd newCols) \<and> hasUnit
          \<and> 2 \<le> moneyCount \<and> 1 \<le> quantityCount))"

record removedCol = rowRef +
  removedColIndex :: nat
  removedLine :: jsstring
  column :: jsstring
  reason :: "jsstring option"

record cleanState =
  kept :: "jsstring list"
  removed :: "removedCol list"
  numericQueue :: "jsstring list"
  firstQueueFill :: bool

text \<open>
  \<^verbatim>\<open>for (j < addCount) newCols.push(numericQueue.shift())\<close>. The loop runs at most
  \<open>length queue\<close> times, so the queue is not empty when it is read; the source would push
  \<^verbatim>\<open>undefined\<close> otherwise, the model stops.
\<close>

fun appendLoop :: "nat \<Rightarrow> jsstring list \<Rightarrow> jsstring list \<Rightarrow> jsstring list \<times> jsstring list" where
  "appendLoop 0 newCols queue = (newCols, queue)"
| "appendLoop (Suc j) newCols [] = (newCols, [])"
| "appendLoop (Suc j) newCols (q # queue) = appendLoop j (newCols @ [q]) queue"

text \<open>
  The swap loop: the cell at \<open>idx\<close> takes the head of the queue, and the value it held goes to
  the tail of the queue. It also runs at most \<open>length queue\<close> times, on indices below the
  number of columns.
\<close>

fun swapLoop :: "nat \<Rightarrow> nat \<Rightarrow> jsstring list \<Rightarrow> jsstring list \<Rightarrow> jsstring list \<times> jsstring list" where
  "swapLoop 0 idx newCols queue = (newCols, queue)"
| "swapLoop (Suc j) idx newCols [] = (newCols, [])"
| "swapLoop (Suc j) idx newCols (q # queue) =
     swapLoop j (Suc idx) (newCols[idx := q]) (queue @ [newCols ! idx])"

text \<open>
  The effective column count of a row (one more than its length when it has no quantity-like
  column) and the threshold (5 until the queue has been consumed once, 6 afterwards).
\<close>

definition nEffective :: "jsstring list \<Rightarrow> nat" where
  "nEffective newCols = length newCols + (if list_ex isQuantityLike newCols then 0 else 1)"

definition threshold :: "bool \<Rightarrow> nat" where
  "threshold first = (if first then 5 else 6)"

text \<open>The consumption of the queue by a row that is kept: columns, queue and the flag
  \<^verbatim>\<open>firstQueueFill\<close>, before and after.\<close>

definition consumeQueue :: "jsstring list \<Rightarrow> jsstring list \<Rightarrow> bool \<Rightarrow> jsstring list \<times> jsstring list \<times> bool" where
  "consumeQueue newCols queue first =
     (if 0 < length queue \<and> 0 < length newCols
      then (let n = length newCols
            in if nEffective newCols < threshold first
               then (let need = threshold first - nEffective newCols;
                         addCount = max 0 (min (length queue) need);
                         (cols', queue') = appendLoop addCount newCols queue
                     in (cols', queue', if 0 < addCount then False else first))
               else (let k = min (length queue) n;
                         (cols', queue') = swapLoop k (n - k) newCols queue
                     in (cols', queue', if 0 < k then False else first)))
      else (newCols, queue, first))"

text \<open>The columns of a row that survive the noise rules and the prefix pruning, and the
  entries the row adds to \<^verbatim>\<open>removed\<close>.\<close>

definition survivingCols :: "jsstring \<Rightarrow> jsstring list" where
  "survivingCols line =
     (let newCols = filter (\<lambda>col. \<not> hitsRule col) (splitToCols line)
      in if shouldPrune newCols then tl newCols else newCols)"

definition removedBy :: "nat \<Rightarrow> jsstring \<Rightarrow> removedCol list" where
  "removedBy r line =
     (let cols = splitToCols line;
          newCols = filter (\<lambda>col. \<not> hitsRule col) cols
      in map (\<lambda>(c, col). \<lparr>rowIndex = r, removedColIndex = c, removedLine = line, column = col,
                           reason = None\<rparr>)
             (filter (\<lambda>(c, col). hitsRule col) (enumerate 0 cols))
         @ (if shouldPrune newCols
            then [\<lparr>rowIndex = r, removedColIndex = 0, removedLine = line, column = hd newCols,
                   reason = Some (ascii ''prefix_pruned'')\<rparr>]
            else []))"

text \<open>One iteration of the loop over the rows.\<close>

definition cleanRow :: "cleanState \<Rightarrow> nat \<times> jsstring \<Rightarrow> cleanState" where
  "cleanRow st rl =
     (let r = fst rl; line = snd rl;
          newCols = survivingCols line;
          st1 = st\<lparr>removed := removed st @ removedBy r line\<rparr>
      in if 0 < length newCols \<and> list_all isNumericToken newCols
         then st1\<lparr>numericQueue := newCols @ numericQueue st1\<rparr>
         else (let (cols', queue', first') =
                     consumeQueue newCols (numericQueue st1) (firstQueueFill st1);
                   st2 = st1\<lparr>numericQueue := queue', firstQueueFill := first'\<rparr>;
                   joined = trim (joinWith (ascii '' | '') cols')
               in if length joined = 0 then st2
                  else st2\<lparr>kept := kept st2 @ [joined]\<rparr>))"

definition cleanLoop :: "jsstring list \<Rightarrow> cleanState" where
  "cleanLoop rs =
     foldl cleanRow \<lparr>kept = [], removed = [], numericQueue = [], firstQueueFill = True\<rparr>
       (enumerate 0 rs)"

text \<open>\<^verbatim>\<open>cleanRowsWithRules\<close> returns \<^verbatim>\<open>{ kept, removed }\<close>.\<close>

definition cleanRowsWithRules :: "jsstring list \<Rightarrow> jsstring list \<times> removedCol list" where
  "cleanRowsWithRules rs = (let st = cleanLoop rs in (kept st, removed st))"

section \<open>SchemaValidator\<close>

text \<open>
  The messages pushed to \<^verbatim>\<open>issues\<close>, as a datatype, in the order of the source:
  "Insufficient columns: expected at least 4, got n", "Missing item name", "Missing required
  money values: ... found n", "Missing quantity", and the four "cannot be null" messages for
  item, quantity, unit price and supply amount.
\<close>

datatype issue =
    InsufficientColumns nat
  | MissingItemName
  | MissingMoneyValues nat
  | MissingQuantity
  | ItemNull
  | QuantityNull
  | UnitPriceNull
  | SupplyAmountNull

text \<open>\<^verbatim>\<open>isValidMoney\<close>, \<^verbatim>\<open>isValidQuantity\<close> (\<^verbatim>\<open>/^\d{4,}$/\<close> and \<^verbatim>\<open>/^\d{1,3}$/\<close> on the
  text without commas and white space) and \<^verbatim>\<open>isValidItem\<close>.\<close>

definition isValidMoney :: "jsstring \<Rightarrow> bool" where
  "isValidMoney val =
     (val \<noteq> [] \<and> rx_test (seqs [Bol, rxAtLeast 4 digit, Eol]) (filter (\<lambda>c. \<not> (c = 44 \<or> isSpace c)) val))"

definition isValidQuantity :: "jsstring \<Rightarrow> bool" where
  "isValidQuantity val =
     (val \<noteq> [] \<and> rx_test (seqs [Bol, rxRep 1 3 digit, Eol]) (filter (\<lambda>c. \<not> (c = 44 \<or> isSpace c)) val))"

definition isValidItem :: "jsstring \<Rightarrow> bool" where
  "isValidItem val = (val \<noteq> [] \<and> trim val \<noteq> [] \<and> rx_test (Chr (\<lambda>c. isHangul c \<or> isLatin c)) val)"

record schemaRow =
  schItem :: "jsstring option"
  schSpecification :: "jsstring option"
  schQuantity :: "jsstring option"
  schUnitPrice :: "jsstring option"
  schSupplyAmount :: "jsstring option"
  schVat :: "jsstring option"

record validation = rowRef +
  row :: jsstring
  cols :: "jsstring list"
  colCount :: nat
  schema :: "schemaRow option"
  issues :: "issue list"

text \<open>\<^verbatim>\<open>!x\<close> for a value that is a string or \<^verbatim>\<open>null\<close>.\<close>

definition falsy :: "jsstring option \<Rightarrow> bool" where
  "falsy x = (x = None \<or> x = Some [])"

text \<open>
  The four searches of the callback of \<^verbatim>\<open>rows.forEach\<close>, each over the columns with their
  indices: the first column that is a valid item; the columns that are valid money; the first
  valid quantity strictly between the item and the unit price; and, when a quantity was found,
  the first non-empty column strictly between the item and the quantity that is neither a valid
  quantity nor valid money.
\<close>

definition findItemCol :: "jsstring list \<Rightarrow> (nat \<times> jsstring) option" where
  "findItemCol cs = find (\<lambda>(i, c). isValidItem c) (enumerate 0 cs)"

definition findMoneyTokens :: "jsstring list \<Rightarrow> (nat \<times> jsstring) list" where
  "findMoneyTokens cs = filter (\<lambda>(i, c). isValidMoney c) (enumerate 0 cs)"

definition findQuantityCol ::
    "jsstring list \<Rightarrow> nat \<times> jsstring \<Rightarrow> nat \<times> jsstring \<Rightarrow> (nat \<times> jsstring) option" where
  "findQuantityCol cs itemCol unitPriceCol =
     find (\<lambda>(i, c). isValidQuantity c)
       (filter (\<lambda>(i, c). fst itemCol + 1 \<le> i \<and> i < fst unitPriceCol) (enumerate 0 cs))"

definition findSpecCol ::
    "jsstring list \<Rightarrow> nat \<times> jsstring \<Rightarrow> (nat \<times> jsstring) option \<Rightarrow> (nat \<times> jsstring) option" where
  "findSpecCol cs itemCol quantityCol =
     (case quantityCol of
        None \<Rightarrow> None
      | Some qc \<Rightarrow>
          find (\<lambda>(i, c). c \<noteq> [] \<and> \<not> isValidQuantity c \<and> \<not> isValidMoney c)
            (filter (\<lambda>(i, c). fst itemCol + 1 \<le> i \<and> i < fst qc) (enumerate 0 cs)))"

text \<open>The four NOT NULL checks on the schema, in the order of the source.\<close>

definition notNullIssues :: "schemaRow \<Rightarrow> issue list" where
  "notNullIssues sch =
     (if falsy (schItem sch) then [ItemNull] else [])
     @ (if falsy (schQuantity sch) then [QuantityNull] else [])
     @ (if falsy (schUnitPrice sch) then [UnitPriceNull] else [])
     @ (if falsy (schSupplyAmount sch) then [SupplyAmountNull] else [])"

text \<open>
  The callback of \<^verbatim>\<open>rows.forEach\<close>: the validation record of one row, \<open>Inr\<close> when it is
  pushed to \<^verbatim>\<open>valid\<close> and \<open>Inl\<close> when it is pushed to \<^verbatim>\<open>invalid\<close>.
\<close>

definition validateRow :: "nat \<Rightarrow> jsstring \<Rightarrow> validation + validation" where
  "validateRow index r =
     (let cs = splitToCols r;
          v0 = \<lparr>rowIndex = index, row = r, cols = cs, colCount = length cs,
                schema = None, issues = []\<rparr>
      in if length cs < 4 then Inl (v0\<lparr>issues := [InsufficientColumns (length cs)]\<rparr>)
      else case findItemCol cs of
        None \<Rightarrow> Inl (v0\<lparr>issues := [MissingItemName]\<rparr>)
      | Some itemCol \<Rightarrow>
         (let moneyTokens = findMoneyTokens cs
          in if length moneyTokens < 2
             then Inl (v0\<lparr>issues := [MissingMoneyValues (length moneyTokens)]\<rparr>)
             else (let unitPriceCol = moneyTokens ! 0;
                       supplyAmountCol = moneyTokens ! 1;
                       vatCol = (if 2 < length moneyTokens then Some (moneyTokens ! 2) else None);
                       quantityCol = findQuantityCol cs itemCol unitPriceCol;
                       issues1 = (if quantityCol = None then [MissingQuantity] else []);
                       specCol = findSpecCol cs itemCol quantityCol;
                       sch = \<lparr>schItem = Some (snd itemCol),
                              schSpecification = map_option snd specCol,
                              schQuantity = map_option snd quantityCol,
                              schUnitPrice = Some (snd unitPriceCol),
                              schSupplyAmount = Some (snd supplyAmountCol),
                              schVat = map_option snd vatCol\<rparr>;
                       issues2 = issues1 @ notNullIssues sch;
                       v = v0\<lparr>schema := Some sch, issues := issues2\<rparr>
                   in if length issues2 = 0 then Inr v else Inl v)))"

text \<open>\<^verbatim>\<open>validateRowSchema\<close> returns \<^verbatim>\<open>{ valid, invalid }\<close>.\<close>

definition validateRowSchema :: "jsstring list \<Rightarrow> validation list \<times> validation list" where
  "validateRowSchema rs =
     (let results = map (\<lambda>(i, r). validateRow i r) (enumerate 0 rs)
      in (concat (map (\<lambda>x. case x of Inr v \<Rightarrow> [v] | Inl v \<Rightarrow> []) results),
          concat (map (\<lambda>x. case x of Inl v \<Rightarrow> [v] | Inr v \<Rightarrow> []) results)))"

text \<open>The step of the main pipeline that attaches the VAT to a parsed item:
  \<^verbatim>\<open>if (item.supplyAmount) item.vat = calculateVAT(item.supplyAmount)\<close>. A supply amount
  that is \<^verbatim>\<open>Infinity\<close> is truthy and is no \<^verbatim>\<open>NaN\<close>, so its VAT is
  \<^verbatim>\<open>Math.ceil(Infinity * 0.1)\<close>, which is \<^verbatim>\<open>Infinity\<close>.\<close>

record itemWithVat = parsedItem +
  vat :: "jsnumber option"

definition attachVat :: "parsedItem \<Rightarrow> itemWithVat" where
  "attachVat it =
     parsedItem.extend it
       \<lparr>vat = (case supplyAmount it of
                 None \<Rightarrow> None
               | Some (Finite n) \<Rightarrow>
                   if n = 0 then None else Some (Finite (calculateVAT (JNum n)))
               | Some Infinite \<Rightarrow> Some Infinite)\<rparr>"

section \<open>TextNormalizer\<close>

text \<open>\<^verbatim>\<open>s.replace(/p/g, new)\<close> for a pattern that is a fixed, non-empty sequence of
  characters: every occurrence, scanning from the left.\<close>

function replaceAllStr :: "jsstring \<Rightarrow> jsstring \<Rightarrow> jsstring \<Rightarrow> jsstring" where
  "replaceAllStr p new [] = []"
| "replaceAllStr p new (c # cs) =
     (if p \<noteq> [] \<and> take (length p) (c # cs) = p
      then new @ replaceAllStr p new (drop (length p) (c # cs))
      else c # replaceAllStr p new cs)"
  by pat_completeness auto
termination
  by (relation "measure (\<lambda>(p, new, s). length s)") auto

text \<open>
  The wrapper pattern \<^verbatim>\<open>/^\s*"([\s\S]*?)"\s*,?\s*$/\<close>. After the leading white space the
  text must open with a double quote; the lazy group then takes the shortest content that is
  followed by a double quote and a tail \<^verbatim>\<open>\s*,?\s*\<close> reaching the end of the text.
  \<open>wrapMatch\<close> returns the content of the group when the pattern matches.
\<close>

definition isWrapTail :: "jsstring \<Rightarrow> bool" where
  "isWrapTail t =
     (case dropWhile isSpace t of
        [] \<Rightarrow> True
      | c # cs \<Rightarrow> c = 44 \<and> list_all isSpace cs)"

fun findClose :: "jsstring \<Rightarrow> jsstring \<Rightarrow> jsstring option" where
  "findClose acc [] = None"
| "findClose acc (c # cs) =
     (if c = 34 \<and> isWrapTail cs then Some (rev acc) else findClose (c # acc) cs)"

definition wrapMatch :: "jsstring \<Rightarrow> jsstring option" where
  "wrapMatch s =
     (case dropWhile isSpace s of
        [] \<Rightarrow> None
      | c # cs \<Rightarrow> if c = 34 then findClose [] cs else None)"

text \<open>The same pattern for the backtracking matcher, used to cross-check \<open>wrapMatch\<close>.\<close>

definition wrapRx :: rx where
  "wrapRx = seqs [Bol, Star ws, lit 34, Grp 1 (Lazy (Chr (\<lambda>c. True))), lit 34,
                  Star ws, rxOpt (lit 44), Star ws, Eol]"

text \<open>\<^verbatim>\<open>s.split(/\n/)\<close>.\<close>

fun splitLines :: "jsstring \<Rightarrow> jsstring list" where
  "splitLines [] = [[]]"
| "splitLines (c # cs) =
     (if c = 10 then [] # splitLines cs
      else (case splitLines cs of [] \<Rightarrow> [[c]] | l # ls \<Rightarrow> (c # l) # ls))"

text \<open>\<^verbatim>\<open>line.replace(/\s{2,}/g, ' ').trim()\<close>\<close>

definition normLine :: "jsstring \<Rightarrow> jsstring" where
  "normLine l = trim (collapseSpaces l)"

definition cleanOcrText :: "jsstring \<Rightarrow> jsstring" where
  "cleanOcrText ocrText =
     (let s1 = replaceAllStr [92, 114, 92, 110] [10] ocrText;
          s2 = replaceAllStr [92, 110] [10] s1;
          s3 = replaceAllStr [92, 116] [9] s2;
          s4 = replaceAllStr [13, 10] [10] s3;
          s5 = replaceAllStr [13] [10] s4;
          s6 = (case wrapMatch s5 of Some inner \<Rightarrow> inner | None \<Rightarrow> s5);
          s7 = replaceAllStr [9] (ascii '' | '') s6;
          lines = filter (\<lambda>line. 0 < length line) (map normLine (splitLines s7))
      in joinWith [10] lines)"

section \<open>Example inputs\<close>

text \<open>The row "[item] | 10 | 5,000 | 50,000" of the specification's parsing example; the item
  is the two Hangul syllables of "item name" followed by the letter A.\<close>

definition exampleRow :: jsstring where
  "exampleRow = [54408, 47749, 65] @ ascii '' | 10 | 5,000 | 50,000''"

text \<open>Lines with a header row, data rows and a footer: first a banner line (the three
  banner syllables between \<^verbatim>\<open>==\<close>), then an assignee cell.\<close>

definition bannerLines :: "jsstring list" where
  "bannerLines = [kwUnitPrice, ascii ''a'', ascii ''b'', ascii ''=='' @ [54616, 50668, 48177] @ ascii ''=='']"

definition assigneeLines :: "jsstring list" where
  "assigneeLines = [kwUnitPrice, ascii ''a'', ascii ''b'', ascii ''c'', kwAssignee]"

text \<open>A header line whose unit-price label is split over its second and third column.\<close>

definition splitHeaderLines :: "jsstring list" where
  "splitHeaderLines = [ascii ''x | '' @ [45800] @ ascii '' | '' @ [44032], ascii ''a | 1'']"

text \<open>A row of four columns that are all numbers.\<close>

definition fourNumbers :: jsstring where
  "fourNumbers = ascii ''1 | 2 | 3 | 4''"

text \<open>The validation record of a row, whichever list it is pushed to, and whether it is pushed
  to \<^verbatim>\<open>valid\<close>.\<close>

definition recordOf :: "validation + validation \<Rightarrow> validation" where
  "recordOf x = (case x of Inl v \<Rightarrow> v | Inr v \<Rightarrow> v)"

definition pushedValid :: "validation + validation \<Rightarrow> bool" where
  "pushedValid x = (case x of Inl v \<Rightarrow> False | Inr v \<Rightarrow> True)"

section \<open>Normal forms of text\<close>

text \<open>\<open>noAdjP P Q s\<close>: nowhere in \<open>s\<close> is a character satisfying \<open>P\<close> immediately followed
  by one satisfying \<open>Q\<close>. \<open>noAdj a b s\<close>: the character \<open>a\<close> is nowhere immediately followed
  by \<open>b\<close>. \<open>noRun s\<close>: no two white space characters are adjacent.\<close>

fun noAdjP :: "(int \<Rightarrow> bool) \<Rightarrow> (int \<Rightarrow> bool) \<Rightarrow> jsstring \<Rightarrow> bool" where
  "noAdjP P Q (x # y # r) = (\<not> (P x \<and> Q y) \<and> noAdjP P Q (y # r))"
| "noAdjP P Q [x] = True"
| "noAdjP P Q [] = True"

definition noAdj :: "int \<Rightarrow> int \<Rightarrow> jsstring \<Rightarrow> bool" where
  "noAdj a b s = noAdjP (\<lambda>x. x = a) (\<lambda>y. y = b) s"

definition noRun :: "jsstring \<Rightarrow> bool" where
  "noRun s = noAdjP isSpace isSpace s"

text \<open>An input that the normalizer sends to a text wrapped in quotes.\<close>

definition quotedTwice :: jsstring where
  "quotedTwice = [34, 34, 97, 34, 34]"


text \<open>The text after the five replacements of line breaks, and the text whose lines are
  normalized.\<close>

definition unescaped :: "jsstring \<Rightarrow> jsstring" where
  "unescaped x =
     replaceAllStr [13] [10] (replaceAllStr [13, 10] [10] (replaceAllStr [92, 116] [9]
       (replaceAllStr [92, 110] [10] (replaceAllStr [92, 114, 92, 110] [10] x))))"

definition unwrapped :: "jsstring \<Rightarrow> jsstring" where
  "unwrapped x = (case wrapMatch (unescaped x) of Some inner \<Rightarrow> inner | None \<Rightarrow> unescaped x)"

definition normLines :: "jsstring \<Rightarrow> jsstring list" where
  "normLines s = filter (\<lambda>line. 0 < length line) (map normLine (splitLines s))"

text \<open>A text with a tab, an escaped and a real line break, and runs of spaces.\<close>

definition sampleText :: jsstring where
  "sampleText = ascii ''a'' @ [9] @ ascii ''b'' @ [13, 10] @ ascii ''  c   d '' @ [92, 110]
                  @ ascii ''e''"

text \<open>A text in three pairs of quotes, the outer one followed by a comma.\<close>

definition quotedComma :: jsstring where
  "quotedComma = [34, 34, 34] @ ascii ''a  b'' @ [34, 34, 34, 44]"

text \<open>A cell: a text that is not empty, neither starts nor ends with white space, and holds
  no bar. The columns that \<open>splitToCols\<close> returns are cells.\<close>

definition isCell :: "jsstring \<Rightarrow> bool" where
  "isCell t = (t \<noteq> [] \<and> \<not> isSpace (hd t) \<and> \<not> isSpace (last t) \<and> 124 \<notin> set t)"

section \<open>Properties of the VAT calculator\<close>

declare bitlen.simps [simp del]

lemma bitlen_pos: "0 < n \<Longrightarrow> bitlen n = Suc (bitlen (n div 2))"
  by (subst bitlen.simps) simp

lemma bitlen_nonpos: "n \<le> 0 \<Longrightarrow> bitlen n = 0"
  by (subst bitlen.simps) simp

lemma bitlen_upper: "n < 2 ^ bitlen n"
proof (induction n rule: bitlen.induct)
  case (1 n)
  show ?case
  proof (cases "n \<le> 0")
    case True
    then show ?thesis by (simp add: bitlen_nonpos)
  next
    case False
    with 1 have "n div 2 < 2 ^ bitlen (n div 2)" by simp
    then have "n < 2 * 2 ^ bitlen (n div 2)" by linarith
    with False show ?thesis by (simp add: bitlen_pos)
  qed
qed

lemma bitlen_lower: "0 < n \<Longrightarrow> 2 ^ (bitlen n - 1) \<le> n"
proof (induction n rule: bitlen.induct)
  case (1 n)
  show ?case
  proof (cases "n div 2 \<le> 0")
    case True
    with 1(2) have "n = 1" by linarith
    then show ?thesis by (simp add: bitlen_pos bitlen_nonpos)
  next
    case False
    then have pos: "0 < n div 2" by simp
    with 1 have ih: "2 ^ (bitlen (n div 2) - 1) \<le> n div 2" by simp
    from pos have "bitlen (n div 2) = Suc (bitlen (n div 2) - 1)"
      by (simp add: bitlen_pos)
    then have "(2::int) ^ bitlen (n div 2) = 2 * 2 ^ (bitlen (n div 2) - 1)"
      by (metis power_Suc)
    with ih have "(2::int) ^ bitlen (n div 2) \<le> n" by linarith
    moreover from 1(2) have "bitlen n - 1 = bitlen (n div 2)"
      by (simp add: bitlen_pos)
    ultimately show ?thesis by simp
  qed
qed

lemma roundToDouble_small: "bitlen n \<le> 53 \<Longrightarrow> roundToDouble n = n"
  by (simp add: roundToDouble_def)

lemma roundToDouble_big:
  "53 < bitlen n \<Longrightarrow> roundToDouble n =
     (if 2 ^ (bitlen n - 53 - 1) < n mod 2 ^ (bitlen n - 53)
         \<or> (n mod 2 ^ (bitlen n - 53) = 2 ^ (bitlen n - 53 - 1) \<and> odd (n div 2 ^ (bitlen n - 53)))
      then n div 2 ^ (bitlen n - 53) + 1 else n div 2 ^ (bitlen n - 53)) * 2 ^ (bitlen n - 53)"
  by (simp add: roundToDouble_def Let_def)

lemma ceil55_between: "k * 2 ^ 55 < v \<Longrightarrow> v \<le> (k + 1) * 2 ^ 55 \<Longrightarrow> ceil55 v = k + 1"
proof -
  assume a: "k * 2 ^ 55 < v" and b: "v \<le> (k + 1) * 2 ^ 55"
  have "(- v) div 2 ^ 55 = - (k + 1)"
  proof (rule int_div_pos_eq [where r = "(k + 1) * 2 ^ 55 - v"])
    show "- v = 2 ^ 55 * - (k + 1) + ((k + 1) * 2 ^ 55 - v)" by simp
    show "0 \<le> (k + 1) * 2 ^ 55 - v" using b by simp
    show "(k + 1) * 2 ^ 55 - v < 2 ^ 55" using a by (simp add: algebra_simps)
  qed
  then show ?thesis by (simp add: ceil55_def)
qed

lemma ceil55_exact: "ceil55 (k * 2 ^ 55) = k"
  by (simp add: ceil55_def flip: mult_minus_left)


lemma ten_tenths: "10 * tenth = 2 ^ 55 + 2"
  by (simp add: tenth_def)

lemma vat_core:
  assumes spos: "0 < s" and sle: "s \<le> 2 ^ 53"
  shows "ceil55 (roundToDouble (s * tenth)) = (s + 9) div 10"
proof -
  define N where "N = s * tenth"
  define k where "k = s div 10"
  define r where "r = s mod 10"
  have s_eq: "s = 10 * k + r" and r0: "0 \<le> r" and r9: "r \<le> 9"
    by (simp_all add: k_def r_def) 
  have k0: "0 \<le> k" using spos by (simp add: k_def)
  have kle: "k \<le> 900719925474099" using sle by (simp add: k_def)
  have N_eq: "N = k * 2 ^ 55 + (2 * k + r * tenth)"
    using ten_tenths by (simp add: N_def s_eq algebra_simps)
  have Npos: "0 < N" using spos by (simp add: N_def tenth_def)
  show ?thesis
  proof (cases "bitlen N \<le> 53")
    case True
    then have R: "roundToDouble N = N" by (rule roundToDouble_small)
    have "N < 2 ^ bitlen N" by (rule bitlen_upper)
    also have "\<dots> \<le> 2 ^ 53" using True by (intro power_increasing) simp_all
    finally have "s * tenth < 2 ^ 53" by (simp add: N_def)
    then have s2: "s \<le> 2" by (simp add: tenth_def)
    with spos have "s = 1 \<or> s = 2" by linarith
    then show ?thesis
      by (auto simp: roundToDouble_def bitlen_pos bitlen_nonpos ceil55_def tenth_def R [unfolded N_def])
  next
    case False
    define sh where "sh = bitlen N - 53"
    define M :: int where "M = 2 ^ sh"
    define half :: int where "half = 2 ^ (sh - 1)"
    define q where "q = N div M"
    define rem where "rem = N mod M"
    from False have sh1: "1 \<le> sh" and bl: "bitlen N = 53 + sh" by (simp_all add: sh_def)
    have Mpos: "0 < M" by (simp add: M_def)
    have M_half: "M = 2 * half"
      using sh1 by (simp add: M_def half_def flip: power_Suc)
    have N_qr: "N = q * M + rem" and rem0: "0 \<le> rem" and remM: "rem < M"
      using Mpos by (simp_all add: q_def rem_def)
    have R: "roundToDouble N = (if half < rem \<or> (rem = half \<and> odd q) then q + 1 else q) * M"
      using False roundToDouble_big [of N]
      by (simp add: sh_def M_def half_def q_def rem_def)
    have "N \<le> 2 ^ 53 * tenth" using sle by (simp add: N_def tenth_def)
    also have "\<dots> < 2 ^ 105" by (simp add: tenth_def)
    finally have "N < 2 ^ 105" .
    moreover have "2 ^ (bitlen N - 1) \<le> N" using Npos by (rule bitlen_lower)
    ultimately have "(2::int) ^ (bitlen N - 1) < 2 ^ 105" by linarith
    from power_less_imp_less_exp [OF _ this] have "bitlen N - 1 < 105" by simp
    then have sh52: "sh \<le> 52" using bl by simp
    define p :: int where "p = 2 ^ (55 - sh)"
    have "p * M = 2 ^ (55 - sh + sh)" unfolding p_def M_def by (rule power_add [symmetric])
    with sh52 have P_eq: "p * M = 2 ^ 55" by simp
    have ppos: "0 < p" by (simp add: p_def)
    define t where "t = k * p"
    have T_eq: "k * 2 ^ 55 = t * M" using P_eq by (simp add: t_def mult.assoc)
    have half_le: "half \<le> 2 ^ 51"
      unfolding half_def by (rule power_increasing) (use sh52 in simp_all)
    have N_lt: "N < 2 ^ 54 * half"
    proof -
      have "N < 2 ^ bitlen N" by (rule bitlen_upper)
      also have "\<dots> = 2 ^ 53 * M" by (simp add: bl M_def power_add)
      finally show ?thesis by (simp add: M_half)
    qed
    have t_le_q: "t \<le> q"
    proof -
      have "t * M \<le> N" using N_eq T_eq k0 r0 by (simp add: tenth_def)
      then have "t * M div M \<le> N div M" by (rule zdiv_mono1) (rule Mpos)
      then show ?thesis using Mpos by (simp add: q_def)
    qed
    show ?thesis
    proof (cases "r = 0")
      case True
      have "k * 2 ^ 55 \<le> N" using N_eq True k0 by simp
      with N_lt have "k * 2 ^ 55 < 2 ^ 54 * half" by linarith
      then have "k * 36028797018963968 < 18014398509481984 * half" by simp
      then have k_half: "2 * k < half" by linarith
      have N_t: "N = M * t + 2 * k" using N_eq True T_eq by (simp add: mult.commute)
      have "N div M = t"
        by (rule int_div_pos_eq [OF N_t]) (use k0 k_half M_half half_le in simp_all)
      moreover have "N mod M = 2 * k"
        by (rule int_mod_pos_eq [OF N_t]) (use k0 k_half M_half half_le in simp_all)
      ultimately have "roundToDouble N = t * M"
        using R k_half by (simp add: q_def rem_def)
      then have "ceil55 (roundToDouble N) = k"
        using ceil55_exact [of k] by (simp add: T_eq [symmetric])
      moreover have "(s + 9) div 10 = k" using True by (simp add: s_eq)
      ultimately show ?thesis by (simp add: N_def)
    next
      case False
      with r0 have r1: "1 \<le> r" by simp
      define d where "d = 2 * k + r * tenth"
      have d_lo: "2 ^ 51 < d" using r1 k0 by (simp add: d_def tenth_def)
      have d_hi: "d < 2 ^ 55" using r9 kle by (simp add: d_def tenth_def)
      have N_d: "N = t * M + d" using N_eq T_eq by (simp add: d_def)
      have upper: "roundToDouble N \<le> (k + 1) * 2 ^ 55"
      proof -
        have "q * M \<le> N" using N_qr rem0 by simp
        also have "N < (t + p) * M" using N_d d_hi P_eq by (simp add: algebra_simps)
        finally have "q < t + p" using Mpos by (simp add: mult_less_cancel_right)
        then have "(q + 1) * M \<le> (t + p) * M" using Mpos by (simp add: mult_le_cancel_right)
        moreover have "roundToDouble N \<le> (q + 1) * M"
          using R Mpos by (simp add: algebra_simps)
        moreover have "(t + p) * M = (k + 1) * 2 ^ 55"
          using T_eq P_eq by (simp add: algebra_simps)
        ultimately show ?thesis by linarith
      qed
      have lower: "k * 2 ^ 55 < roundToDouble N"
      proof (cases "t < q")
        case True
        then have "(t + 1) * M \<le> q * M" using Mpos by (simp add: mult_le_cancel_right)
        moreover have "q * M \<le> roundToDouble N" using R Mpos by (simp add: algebra_simps)
        ultimately show ?thesis using T_eq Mpos by (simp add: algebra_simps)
      next
        case False
        with t_le_q have "q = t" by simp
        with N_qr N_d have "rem = d" by simp
        with d_lo half_le have "half < rem" by linarith
        with R have "roundToDouble N = (q + 1) * M" by simp
        with \<open>q = t\<close> show ?thesis using T_eq Mpos by (simp add: algebra_simps)
      qed
      have "ceil55 (roundToDouble N) = k + 1"
        using lower upper by (rule ceil55_between)
      moreover have "(s + 9) div 10 = k + 1" using r1 r9 by (simp add: s_eq)
      ultimately show ?thesis by (simp add: N_def)
    qed
  qed
qed

lemma ceiling_tenth: "\<lceil>real_of_int s / 10\<rceil> = (s + 9) div 10"
proof -
  have "\<lceil>real_of_int s / real_of_int 10\<rceil> = - (- s div 10)"
    by (rule ceiling_divide_eq_div)
  then show ?thesis by simp
qed

text \<open>
  Claim C1, amended. For every integer \<open>s\<close> with \<open>0 \<le> s \<le> 2^53\<close> (every such integer is a
  double), \<open>calculateVAT\<close> returns the ceiling of \<open>s / 10\<close>; in particular
  \<open>VAT(6727) = 673\<close>, \<open>VAT(133364) = 13337\<close>, \<open>VAT(10000) = 1000\<close>; and for \<open>null\<close>,
  \<open>undefined\<close> and \<open>NaN\<close> it returns \<open>0\<close>.
\<close>

theorem calculateVAT_ceiling:
  assumes "0 \<le> s" and "s \<le> 2 ^ 53"
  shows "calculateVAT (JNum s) = \<lceil>real_of_int s / 10\<rceil>
       \<and> calculateVAT (JNum 6727) = 673
       \<and> calculateVAT (JNum 133364) = 13337
       \<and> calculateVAT (JNum 10000) = 1000
       \<and> calculateVAT JNull = 0 \<and> calculateVAT JUndefined = 0 \<and> calculateVAT JNaN = 0"
proof -
  have gen: "calculateVAT (JNum n) = (n + 9) div 10" if "0 \<le> n" "n \<le> 2 ^ 53" for n
  proof (cases "n = 0")
    case True
    then show ?thesis by (simp add: calculateVAT_def)
  next
    case False
    with that have pos: "0 < n" by simp
    then have "mulTenth n = roundToDouble (n * tenth)" by (simp add: mulTenth_def)
    with False vat_core [OF pos that(2)] show ?thesis by (simp add: calculateVAT_def)
  qed
  have "calculateVAT (JNum s) = \<lceil>real_of_int s / 10\<rceil>"
    using gen [OF assms] by (simp only: ceiling_tenth)
  moreover have "calculateVAT (JNum 6727) = 673" using gen [of 6727] by simp
  moreover have "calculateVAT (JNum 133364) = 13337" using gen [of 133364] by simp
  moreover have "calculateVAT (JNum 10000) = 1000" using gen [of 10000] by simp
  moreover have "calculateVAT JNull = 0 \<and> calculateVAT JUndefined = 0 \<and> calculateVAT JNaN = 0"
    by (simp add: calculateVAT_def)
  ultimately show ?thesis by simp
qed

theorem calculateVAT_ceiling_witness:
  "calculateVAT (JNum 4321) = 433 \<and> calculateVAT (JNum 6727) = 673 \<and> calculateVAT JNull = 0"
  using calculateVAT_ceiling [of 4321] by simp

text \<open>
  Claim C1 as stated (every integer \<open>s \<ge> 0\<close>) fails beyond the exactly representable range:
  \<open>45035996273704992 = 2^5 * 1407374883553281\<close> is a double, its product with \<^verbatim>\<open>0.1\<close>
  rounds down to the integer \<open>4503599627370499\<close>, and the ceiling of a tenth of it is
  \<open>4503599627370500\<close>.
\<close>

theorem calculateVAT_large_counterexample:
  "isDoubleInt 45035996273704992
   \<and> calculateVAT (JNum 45035996273704992) = 4503599627370499
   \<and> calculateVAT (JNum 45035996273704992) \<noteq> \<lceil>real_of_int 45035996273704992 / 10\<rceil>"
proof -
  have a: "isDoubleInt 45035996273704992" by code_simp
  have b: "calculateVAT (JNum 45035996273704992) = 4503599627370499" by code_simp
  have c: "\<lceil>real_of_int 45035996273704992 / 10\<rceil> = 4503599627370500"
    by (simp add: ceiling_tenth)
  from a b c show ?thesis by simp
qed


section \<open>Properties of the row parser\<close>

lemma adjacentPair_mem:
  "adjacentPair ms = Some (a, b) \<Longrightarrow> a \<in> set ms \<and> b \<in> set ms"
  by (induction ms rule: adjacentPair.induct) (auto split: if_splits)

lemma parseItemRow_unitPrice:
  assumes "parseItemRow cs = Some it"
  shows "\<exists>n. unitPrice it = Some n \<and> numGe n 1000"
proof -
  define q1 where "q1 = (case map (\<lambda>(i, c). (i, parseDigits (trim c)))
       (filter (\<lambda>(i, c). rx_test quantityRx (trim c)) (enumerate 1 (tl cs))) of
         [c] \<Rightarrow> Some c | _ \<Rightarrow> None)"
  define start where "start = max 1 (case q1 of Some (i, n) \<Rightarrow> i + 1 | None \<Rightarrow> 1)"
  define money where "money = concat (map (\<lambda>(i, token).
       if \<not> isMoneyToken token then []
       else (case toIntStrict token of
               None \<Rightarrow> []
             | Some n \<Rightarrow> if numGe n 1000 then [(i, n)] else []))
     (enumerate start (drop start cs)))"
  define pick where "pick = (case adjacentPair money of
       Some (a, b) \<Rightarrow> (Some a, Some b)
     | None \<Rightarrow> (case money of
          [] \<Rightarrow> (None, None)
        | m0 # _ \<Rightarrow> (Some m0, find (\<lambda>m. fst m0 < fst m) money)))"
  have money_ge: "numGe n 1000" if "(i, n) \<in> set money" for i n
    using that by (auto simp: money_def split: if_splits option.splits)
  have pick_mem: "(i, n) \<in> set money" if "fst pick = Some (i, n)" for i n
    using that adjacentPair_mem [of money]
    by (auto simp: pick_def split: option.splits list.splits prod.splits)
  from assms obtain ui un where "fst pick = Some (ui, un)" and "unitPrice it = Some un"
    unfolding parseItemRow_def Let_def q1_def [symmetric] start_def [symmetric]
      money_def [symmetric] pick_def [symmetric]
    by (auto split: if_splits prod.splits option.splits)
  with pick_mem money_ge show ?thesis by blast
qed

text \<open>
  Claim C4. For every row, \<open>parseItemRow\<close> either rejects the row or returns an item whose unit
  price is present and at least 1000; every item of \<open>parseItemsFromRows\<close> has a unit price of
  at least 1000; and a row without a money token of value at least 1000 is rejected, not
  returned with an absent unit price.
\<close>

theorem parser_unit_price_at_least_1000:
  "(parseItemRow cs = None
      \<or> (\<exists>it n. parseItemRow cs = Some it \<and> unitPrice it = Some n \<and> numGe n 1000))
   \<and> (\<forall>it \<in> set (parseItemsFromRows rs). \<exists>n. unitPrice it = Some n \<and> numGe n 1000)
   \<and> ((\<forall>c \<in> set cs. \<not> (isMoneyToken c \<and> (\<exists>n. toIntStrict c = Some n \<and> numGe n 1000)))
        \<longrightarrow> parseItemRow cs = None)"
proof (intro conjI)
  show "parseItemRow cs = None
      \<or> (\<exists>it n. parseItemRow cs = Some it \<and> unitPrice it = Some n \<and> numGe n 1000)"
    using parseItemRow_unitPrice [of cs] by (cases "parseItemRow cs") auto
  show "\<forall>it \<in> set (parseItemsFromRows rs). \<exists>n. unitPrice it = Some n \<and> numGe n 1000"
    using parseItemRow_unitPrice
    by (auto simp: parseItemsFromRows_def split: option.splits if_splits)
  show "(\<forall>c \<in> set cs. \<not> (isMoneyToken c \<and> (\<exists>n. toIntStrict c = Some n \<and> numGe n 1000)))
        \<longrightarrow> parseItemRow cs = None"
  proof
    assume none: "\<forall>c \<in> set cs. \<not> (isMoneyToken c \<and> (\<exists>n. toIntStrict c = Some n \<and> numGe n 1000))"
    have empty: "concat (map (\<lambda>(i, token).
         if \<not> isMoneyToken token then []
         else (case toIntStrict token of
                 None \<Rightarrow> []
               | Some n \<Rightarrow> if numGe n 1000 then [(i, n)] else []))
       (enumerate start (drop start cs))) = []" for start
    proof -
      have "token \<in> set cs" if "(i, token) \<in> set (enumerate start (drop start cs))" for i token
      proof -
        from that have "snd (i, token) \<in> snd ` set (enumerate start (drop start cs))"
          by (rule imageI)
        then have "token \<in> set (map snd (enumerate start (drop start cs)))"
          by (simp only: set_map snd_conv)
        then have "token \<in> set (drop start cs)" by simp
        then show ?thesis by (rule in_set_dropD)
      qed
      with none show ?thesis by (fastforce split: option.splits)
    qed
    show "parseItemRow cs = None"
      unfolding parseItemRow_def Let_def empty
      by (auto split: if_splits prod.splits option.splits)
  qed
qed

text \<open>
  \<open>parseInt10\<close> on digit strings that no double holds exactly: \<open>2^53 + 1\<close> is a tie and goes
  to the even neighbour \<open>2^53\<close>, \<open>2^53 + 3\<close> goes up to \<open>2^53 + 4\<close>. The integer
  \<open>2^1024 - 2^970\<close>, half way between the largest double and \<open>2^1024\<close>, is read as
  \<^verbatim>\<open>Infinity\<close>, and the integer before it as the largest double.
\<close>

lemma parseInt10_rounds:
  "parseInt10 (ascii ''9007199254740993'') = Finite 9007199254740992"
  "parseInt10 (ascii ''9007199254740995'') = Finite 9007199254740996"
  "toIntStrict (ascii ''5,000'') = Some (Finite 5000)"
  by code_simp+

lemma parseInt10_overflow:
  "parseInt10 (ascii ''179769313486231580793728971405303415079934132710037826936173778980444968292764750946649017977587207096330286416692887910946555547851940402630657488671505820681908902000708383676273854845817711531764475730270069855571366959622842914819860834936475292719074168444365510704342711559699508093042880177904174497792'') = Infinite"
  "parseInt10 (ascii ''179769313486231580793728971405303415079934132710037826936173778980444968292764750946649017977587207096330286416692887910946555547851940402630657488671505820681908902000708383676273854845817711531764475730270069855571366959622842914819860834936475292719074168444365510704342711559699508093042880177904174497791'')
     = Finite (2 ^ 1024 - 2 ^ 971)"
  by code_simp+

lemma exampleRow_parsed:
  "parseItemRow (splitToCols exampleRow) =
     Some \<lparr>item = [54408, 47749, 65], specification' = Some [], quantity = Some 10,
           unitPrice = Some (Finite 5000), supplyAmount = Some (Finite 50000)\<rparr>"
  by code_simp

theorem parser_unit_price_at_least_1000_witness:
  "parseItemRow (splitToCols exampleRow) \<noteq> None
   \<and> map unitPrice (parseItemsFromRows [exampleRow]) = [Some (Finite 5000)]
   \<and> parseItemRow [ascii ''abc'', ascii ''12'', ascii ''999''] = None"
proof -
  have a: "map unitPrice (parseItemsFromRows [exampleRow]) = [Some (Finite 5000)]" by code_simp
  have b: "\<forall>c \<in> set [ascii ''abc'', ascii ''12'', ascii ''999''].
      \<not> (isMoneyToken c \<and> (\<exists>n. toIntStrict c = Some n \<and> numGe n 1000))"
  proof -
    have "\<not> isMoneyToken (ascii ''abc'')" "\<not> isMoneyToken (ascii ''12'')"
      "\<not> isMoneyToken (ascii ''999'')" by code_simp+
    then show ?thesis by simp
  qed
  from parser_unit_price_at_least_1000 [of "[ascii ''abc'', ascii ''12'', ascii ''999'']" "[exampleRow]"] b
  have "parseItemRow [ascii ''abc'', ascii ''12'', ascii ''999''] = None" by blast
  with a exampleRow_parsed show ?thesis by simp
qed

text \<open>
  Claim C3, amended. Parsing the row "[item] | 10 | 5,000 | 50,000" (the item being the two
  Hangul syllables of "item name" and the letter A) and attaching the VAT yields the item with
  quantity 10, unit price 5000, supply amount 50000 and VAT 5000, and with the empty string as
  its specification.
\<close>

theorem parse_example_row:
  "map attachVat (parseItemsFromRows [exampleRow]) =
     [\<lparr>item = [54408, 47749, 65], specification' = Some [], quantity = Some 10,
       unitPrice = Some (Finite 5000), supplyAmount = Some (Finite 50000),
       vat = Some (Finite 5000)\<rparr>]"
  by code_simp

text \<open>Claim C3 as stated gives the specification as \<^verbatim>\<open>null\<close>; the parser leaves the empty
  string it started from, since the column after the item is a quantity.\<close>

theorem parse_example_row_counterexample:
  "map attachVat (parseItemsFromRows [exampleRow]) \<noteq>
     [\<lparr>item = [54408, 47749, 65], specification' = None, quantity = Some 10,
       unitPrice = Some (Finite 5000), supplyAmount = Some (Finite 50000),
       vat = Some (Finite 5000)\<rparr>]"
proof -
  have "map specification' (map attachVat (parseItemsFromRows [exampleRow])) = [Some []]"
    by code_simp
  then show ?thesis by auto
qed


section \<open>Properties of the schema validator\<close>

lemma find_enumerate_None:
  "find (\<lambda>(i, c). P c) (enumerate n xs) = None \<longleftrightarrow> \<not> list_ex P xs"
  by (induction xs arbitrary: n) auto

lemma find_enumerate_Some:
  "find (\<lambda>(i, c). P c) (enumerate n xs) = Some (j, x) \<Longrightarrow> P x"
  by (induction xs arbitrary: n) (auto split: if_splits)

lemma filter_enumerate_length:
  "length (filter (\<lambda>(i, c). P c) (enumerate n xs)) = length (filter P xs)"
  by (induction xs arbitrary: n) auto

lemma filter_enumerate_nth:
  "k < length (filter (\<lambda>(i, c). P c) (enumerate n xs))
     \<Longrightarrow> P (snd (filter (\<lambda>(i, c). P c) (enumerate n xs) ! k))"
proof -
  assume "k < length (filter (\<lambda>(i, c). P c) (enumerate n xs))"
  then have "filter (\<lambda>(i, c). P c) (enumerate n xs) ! k
      \<in> set (filter (\<lambda>(i, c). P c) (enumerate n xs))" by (rule nth_mem)
  then show ?thesis by auto
qed

lemma find_filter_Some:
  "find P (filter Q xs) = Some x \<Longrightarrow> P x"
  by (induction xs) (auto split: if_splits)

lemma validateRow_cases:
  fixes index :: nat and r :: jsstring
  defines "cs \<equiv> splitToCols r"
  defines "money \<equiv> filter isValidMoney cs"
  defines "v \<equiv> recordOf (validateRow index r)"
  shows "(length cs < 4 \<longrightarrow> issues v = [InsufficientColumns (length cs)])
       \<and> (4 \<le> length cs \<and> \<not> list_ex isValidItem cs \<longrightarrow> issues v = [MissingItemName])
       \<and> (4 \<le> length cs \<and> list_ex isValidItem cs \<and> length money < 2
            \<longrightarrow> issues v = [MissingMoneyValues (length money)])
       \<and> (4 \<le> length cs \<and> list_ex isValidItem cs \<and> 2 \<le> length money
            \<longrightarrow> (\<exists>sch. schema v = Some sch
                   \<and> issues v = (if schQuantity sch = None then [MissingQuantity, QuantityNull]
                                 else [])))
       \<and> (pushedValid (validateRow index r) \<longleftrightarrow> issues v = [])"
proof -
  let ?mt = "findMoneyTokens cs"
  have len: "length ?mt = length money"
    unfolding money_def findMoneyTokens_def by (rule filter_enumerate_length)
  have noItem: "findItemCol cs = None \<longleftrightarrow> \<not> list_ex isValidItem cs"
    unfolding findItemCol_def by (rule find_enumerate_None)
  have c1: "length cs < 4 \<Longrightarrow> validateRow index r =
      Inl \<lparr>rowIndex = index, row = r, cols = cs, colCount = length cs, schema = None,
           issues = [InsufficientColumns (length cs)]\<rparr>"
    by (simp add: validateRow_def cs_def Let_def)
  have c2: "4 \<le> length cs \<Longrightarrow> \<not> list_ex isValidItem cs \<Longrightarrow> validateRow index r =
      Inl \<lparr>rowIndex = index, row = r, cols = cs, colCount = length cs, schema = None,
           issues = [MissingItemName]\<rparr>"
    using noItem by (simp add: validateRow_def cs_def [symmetric] Let_def)
  have c3: "4 \<le> length cs \<Longrightarrow> list_ex isValidItem cs \<Longrightarrow> length money < 2 \<Longrightarrow>
      validateRow index r =
      Inl \<lparr>rowIndex = index, row = r, cols = cs, colCount = length cs, schema = None,
           issues = [MissingMoneyValues (length money)]\<rparr>"
    using noItem len
    by (auto simp: validateRow_def cs_def [symmetric] Let_def split: option.splits)
  have c4: "\<exists>sch. schema v = Some sch
      \<and> issues v = (if schQuantity sch = None then [MissingQuantity, QuantityNull] else [])
      \<and> (pushedValid (validateRow index r) \<longleftrightarrow> issues v = [])"
    if a: "4 \<le> length cs" and b: "list_ex isValidItem cs" and c: "2 \<le> length money"
  proof -
    from b noItem obtain ic where ic: "findItemCol cs = Some ic" by auto
    then have "isValidItem (snd ic)"
      using find_enumerate_Some [of isValidItem 0 cs "fst ic" "snd ic"]
      by (simp add: findItemCol_def)
    then have item_ok: "\<not> falsy (Some (snd ic))" by (simp add: falsy_def isValidItem_def)
    from c len have l2: "\<not> length ?mt < 2" by simp
    then have "0 < length ?mt" and "1 < length ?mt" by linarith+
    note nth0 = filter_enumerate_nth [OF this(1) [unfolded findMoneyTokens_def]]
      and nth1 = filter_enumerate_nth [OF this(2) [unfolded findMoneyTokens_def]]
    from nth0 have "isValidMoney (snd (?mt ! 0))" by (simp add: findMoneyTokens_def)
    then have unit_ok: "\<not> falsy (Some (snd (?mt ! 0)))" by (simp add: falsy_def isValidMoney_def)
    from nth1 have "isValidMoney (snd (?mt ! 1))" by (simp add: findMoneyTokens_def)
    then have supply_ok: "\<not> falsy (Some (snd (?mt ! 1)))" by (simp add: falsy_def isValidMoney_def)
    define qc where "qc = findQuantityCol cs ic (?mt ! 0)"
    have q_ok: "\<not> falsy (Some (snd x))" if "qc = Some x" for x
    proof -
      from that have "(\<lambda>(i, c). isValidQuantity c) x"
        unfolding qc_def findQuantityCol_def by (rule find_filter_Some)
      then show ?thesis by (cases x) (simp add: falsy_def isValidQuantity_def)
    qed
    show ?thesis
    proof (cases qc)
      case None
      then show ?thesis
        using a ic l2 item_ok unit_ok supply_ok
        unfolding v_def validateRow_def Let_def cs_def [symmetric] qc_def
        by (simp add: recordOf_def pushedValid_def notNullIssues_def falsy_def)
    next
      case (Some x)
      then show ?thesis
        using a ic l2 item_ok unit_ok supply_ok q_ok [OF Some]
        unfolding v_def validateRow_def Let_def cs_def [symmetric] qc_def
        by (simp add: recordOf_def pushedValid_def notNullIssues_def)
    qed
  qed
  have side: "pushedValid (validateRow index r) \<longleftrightarrow> issues v = []"
  proof (cases "length cs < 4")
    case True
    with c1 show ?thesis by (simp add: v_def recordOf_def pushedValid_def)
  next
    case long: False
    show ?thesis
    proof (cases "list_ex isValidItem cs")
      case False
      with long c2 show ?thesis by (simp add: v_def recordOf_def pushedValid_def)
    next
      case item: True
      show ?thesis
      proof (cases "length money < 2")
        case True
        with long item c3 show ?thesis by (simp add: v_def recordOf_def pushedValid_def)
      next
        case False
        with long item c4 show ?thesis by force
      qed
    qed
  qed
  have p1: "length cs < 4 \<longrightarrow> issues v = [InsufficientColumns (length cs)]"
    using c1 by (simp add: v_def recordOf_def)
  have p2: "4 \<le> length cs \<and> \<not> list_ex isValidItem cs \<longrightarrow> issues v = [MissingItemName]"
    using c2 by (simp add: v_def recordOf_def)
  have p3: "4 \<le> length cs \<and> list_ex isValidItem cs \<and> length money < 2
            \<longrightarrow> issues v = [MissingMoneyValues (length money)]"
    using c3 by (simp add: v_def recordOf_def)
  have p4: "4 \<le> length cs \<and> list_ex isValidItem cs \<and> 2 \<le> length money
            \<longrightarrow> (\<exists>sch. schema v = Some sch
                   \<and> issues v = (if schQuantity sch = None then [MissingQuantity, QuantityNull]
                                 else []))"
    using c4 by blast
  from p1 p2 p3 p4 side show ?thesis by (intro conjI)
qed

text \<open>
  Claim C8, amended. The validator returns immediately at three checks, each with its single
  reason: fewer than 4 columns, no item-like column, and fewer than 2 money tokens. A row that
  passes the three gets a schema, and its reasons are both quantity reasons ("Missing quantity"
  and "Quantity cannot be null") when no quantity was assigned and none otherwise. A row is
  pushed to \<^verbatim>\<open>valid\<close> exactly when its list of issues is empty.
\<close>

theorem validator_issues:
  "(length (splitToCols r) < 4
      \<longrightarrow> issues (recordOf (validateRow index r)) = [InsufficientColumns (length (splitToCols r))])
   \<and> (4 \<le> length (splitToCols r) \<and> \<not> list_ex isValidItem (splitToCols r)
      \<longrightarrow> issues (recordOf (validateRow index r)) = [MissingItemName])
   \<and> (4 \<le> length (splitToCols r) \<and> list_ex isValidItem (splitToCols r)
       \<and> length (filter isValidMoney (splitToCols r)) < 2
      \<longrightarrow> issues (recordOf (validateRow index r))
          = [MissingMoneyValues (length (filter isValidMoney (splitToCols r)))])
   \<and> (4 \<le> length (splitToCols r) \<and> list_ex isValidItem (splitToCols r)
       \<and> 2 \<le> length (filter isValidMoney (splitToCols r))
      \<longrightarrow> (\<exists>sch. schema (recordOf (validateRow index r)) = Some sch
             \<and> issues (recordOf (validateRow index r))
               = (if schQuantity sch = None then [MissingQuantity, QuantityNull] else [])))
   \<and> (pushedValid (validateRow index r) \<longleftrightarrow> issues (recordOf (validateRow index r)) = [])
   \<and> (\<forall>v \<in> set (fst (validateRowSchema rs)). issues v = [])
   \<and> (\<forall>v \<in> set (snd (validateRowSchema rs)). issues v \<noteq> [])"
proof -
  have side: "pushedValid (validateRow i x) \<longleftrightarrow> issues (recordOf (validateRow i x)) = []" for i x
    using validateRow_cases [of x i] by blast
  have "\<forall>v \<in> set (fst (validateRowSchema rs)). issues v = []"
    using side by (fastforce simp: validateRowSchema_def Let_def recordOf_def pushedValid_def
        split: sum.splits)
  moreover have "\<forall>v \<in> set (snd (validateRowSchema rs)). issues v \<noteq> []"
    using side by (fastforce simp: validateRowSchema_def Let_def recordOf_def pushedValid_def
        split: sum.splits)
  ultimately show ?thesis using validateRow_cases [of r index] by blast
qed

theorem validator_issues_witness:
  "issues (recordOf (validateRow 0 (ascii ''ab | 1 | 2''))) = [InsufficientColumns 3]
   \<and> issues (recordOf (validateRow 0 fourNumbers)) = [MissingItemName]
   \<and> issues (recordOf (validateRow 0 (ascii ''ab | x | 3 | 4000''))) = [MissingMoneyValues 1]
   \<and> issues (recordOf (validateRow 0 (ascii ''ab | x | 1000 | 3000'')))
       = [MissingQuantity, QuantityNull]
   \<and> pushedValid (validateRow 0 (ascii ''ab | 3 | 1000 | 3000''))
   \<and> map issues (fst (validateRowSchema [fourNumbers, ascii ''ab | 3 | 1000 | 3000''])) = [[]]"
proof -
  note t = validator_issues [where index = 0]
  have s1: "splitToCols (ascii ''ab | 1 | 2'') = [ascii ''ab'', ascii ''1'', ascii ''2'']"
    and s2: "splitToCols fourNumbers = [ascii ''1'', ascii ''2'', ascii ''3'', ascii ''4'']"
    and s3: "splitToCols (ascii ''ab | x | 3 | 4000'')
               = [ascii ''ab'', ascii ''x'', ascii ''3'', ascii ''4000'']"
    and s4: "splitToCols (ascii ''ab | x | 1000 | 3000'')
               = [ascii ''ab'', ascii ''x'', ascii ''1000'', ascii ''3000'']"
    and s5: "splitToCols (ascii ''ab | 3 | 1000 | 3000'')
               = [ascii ''ab'', ascii ''3'', ascii ''1000'', ascii ''3000'']"
    by code_simp+
  have i1: "isValidItem (ascii ''ab'')" "\<not> isValidItem (ascii ''1'')" "\<not> isValidItem (ascii ''2'')"
    "\<not> isValidItem (ascii ''3'')" "\<not> isValidItem (ascii ''4'')" by code_simp+
  have m1: "\<not> isValidMoney (ascii ''ab'')" "\<not> isValidMoney (ascii ''x'')"
    "\<not> isValidMoney (ascii ''3'')" "isValidMoney (ascii ''4000'')"
    "isValidMoney (ascii ''1000'')" "isValidMoney (ascii ''3000'')" by code_simp+
  have a: "issues (recordOf (validateRow 0 (ascii ''ab | 1 | 2''))) = [InsufficientColumns 3]"
    using t [of "ascii ''ab | 1 | 2''"] by (simp add: s1)
  have b: "issues (recordOf (validateRow 0 fourNumbers)) = [MissingItemName]"
    using t [of fourNumbers] by (simp add: s2 i1)
  have c: "issues (recordOf (validateRow 0 (ascii ''ab | x | 3 | 4000''))) = [MissingMoneyValues 1]"
    using t [of "ascii ''ab | x | 3 | 4000''"] by (simp add: s3 i1 m1)
  have q: "schQuantity (the (schema (recordOf (validateRow 0 (ascii ''ab | x | 1000 | 3000''))))) = None"
    by code_simp
  have d: "issues (recordOf (validateRow 0 (ascii ''ab | x | 1000 | 3000'')))
       = [MissingQuantity, QuantityNull]"
  proof -
    from t [of "ascii ''ab | x | 1000 | 3000''" "[]"] obtain sch
      where "schema (recordOf (validateRow 0 (ascii ''ab | x | 1000 | 3000''))) = Some sch"
        and "issues (recordOf (validateRow 0 (ascii ''ab | x | 1000 | 3000'')))
              = (if schQuantity sch = None then [MissingQuantity, QuantityNull] else [])"
      by (auto simp: s4 i1 m1)
    with q show ?thesis by simp
  qed
  have e0: "issues (recordOf (validateRow 0 (ascii ''ab | 3 | 1000 | 3000''))) = []" by code_simp
  have e: "pushedValid (validateRow 0 (ascii ''ab | 3 | 1000 | 3000''))"
    using t [of "ascii ''ab | 3 | 1000 | 3000''"] e0 by blast
  have f: "map issues (fst (validateRowSchema [fourNumbers, ascii ''ab | 3 | 1000 | 3000''])) = [[]]"
    by code_simp
  from a b c d e f show ?thesis by simp
qed

text \<open>
  Claim C8 as stated names two immediate returns. The row "1 | 2 | 3 | 4" has four columns, so
  the column check passes; it has no item-like column and no money token, and the validator
  stops at the missing item: the money reason, which applies as well, is not recorded.
\<close>

theorem validator_third_early_return_counterexample:
  "length (splitToCols fourNumbers) = 4
   \<and> length (filter isValidMoney (splitToCols fourNumbers)) = 0
   \<and> issues (recordOf (validateRow 0 fourNumbers)) = [MissingItemName]"
  by code_simp


section \<open>Properties of the row sanitizer\<close>

lemma cleanLoop_snoc:
  "cleanLoop (rs @ [line]) = cleanRow (cleanLoop rs) (length rs, line)"
  by (simp add: cleanLoop_def enumerate_append_eq)

lemma appendLoop_fst:
  "fst (appendLoop k newCols queue) = newCols @ take k queue"
  by (induction k newCols queue rule: appendLoop.induct) simp_all

lemma cleanRow_numeric:
  assumes "survivingCols line \<noteq> []" and "list_all isNumericToken (survivingCols line)"
  shows "kept (cleanRow st (r, line)) = kept st"
    and "numericQueue (cleanRow st (r, line)) = survivingCols line @ numericQueue st"
    and "firstQueueFill (cleanRow st (r, line)) = firstQueueFill st"
  using assms by (simp_all add: cleanRow_def Let_def)

lemma cleanRow_other:
  assumes "\<not> (survivingCols line \<noteq> [] \<and> list_all isNumericToken (survivingCols line))"
    and "consumeQueue (survivingCols line) (numericQueue st) (firstQueueFill st)
           = (cols', queue', first')"
  shows "numericQueue (cleanRow st (r, line)) = queue'"
    and "kept (cleanRow st (r, line))
           = (if trim (joinWith (ascii '' | '') cols') = [] then kept st
              else kept st @ [trim (joinWith (ascii '' | '') cols')])"
proof -
  have c: "(0 < length (survivingCols line) \<and> list_all isNumericToken (survivingCols line)) = False"
    using assms(1) by simp
  show "numericQueue (cleanRow st (r, line)) = queue'"
    unfolding cleanRow_def Let_def fst_conv snd_conv by (simp only: c if_False) (simp add: assms(2))
  show "kept (cleanRow st (r, line))
           = (if trim (joinWith (ascii '' | '') cols') = [] then kept st
              else kept st @ [trim (joinWith (ascii '' | '') cols')])"
    unfolding cleanRow_def Let_def fst_conv snd_conv by (simp only: c if_False) (simp add: assms(2))
qed

lemma appendLoop_mset:
  "mset (fst (appendLoop k newCols queue)) + mset (snd (appendLoop k newCols queue))
     = mset newCols + mset queue"
  by (induction k newCols queue rule: appendLoop.induct) simp_all

lemma swapLoop_mset:
  "idx + k \<le> length newCols \<Longrightarrow>
   mset (fst (swapLoop k idx newCols queue)) + mset (snd (swapLoop k idx newCols queue))
     = mset newCols + mset queue"
proof (induction k idx newCols queue rule: swapLoop.induct)
  case (3 j idx newCols q queue)
  then have idx: "idx < length newCols" by simp
  from 3 have "mset (fst (swapLoop j (Suc idx) (newCols[idx := q]) (queue @ [newCols ! idx])))
      + mset (snd (swapLoop j (Suc idx) (newCols[idx := q]) (queue @ [newCols ! idx])))
      = mset (newCols[idx := q]) + mset (queue @ [newCols ! idx])" by simp
  also have "\<dots> = add_mset q (mset newCols - {#newCols ! idx#}) + add_mset (newCols ! idx) (mset queue)"
    using idx by (simp add: mset_update)
  also have "\<dots> = mset newCols + mset (q # queue)"
    using idx by simp
  finally show ?case by simp
qed simp_all

lemma consumeQueue_mset:
  "consumeQueue newCols queue first = (cols', queue', first')
     \<Longrightarrow> mset cols' + mset queue' = mset newCols + mset queue"
proof -
  assume eq: "consumeQueue newCols queue first = (cols', queue', first')"
  show ?thesis
  proof (cases "0 < length queue \<and> 0 < length newCols")
    case False
    with eq show ?thesis by (auto simp: consumeQueue_def)
  next
    case True
    show ?thesis
    proof (cases "nEffective newCols < threshold first")
      case True
      with \<open>0 < length queue \<and> 0 < length newCols\<close> eq
      have "cols' = fst (appendLoop (min (length queue) (threshold first - nEffective newCols)) newCols queue)"
        and "queue' = snd (appendLoop (min (length queue) (threshold first - nEffective newCols)) newCols queue)"
        by (auto simp: consumeQueue_def Let_def split_def)
      then show ?thesis by (simp only: appendLoop_mset)
    next
      case False
      with \<open>0 < length queue \<and> 0 < length newCols\<close> eq
      have "cols' = fst (swapLoop (min (length queue) (length newCols))
                (length newCols - min (length queue) (length newCols)) newCols queue)"
        and "queue' = snd (swapLoop (min (length queue) (length newCols))
                (length newCols - min (length queue) (length newCols)) newCols queue)"
        by (auto simp: consumeQueue_def Let_def split_def)
      moreover have "length newCols - min (length queue) (length newCols)
          + min (length queue) (length newCols) \<le> length newCols" by simp
      ultimately show ?thesis by (simp only: swapLoop_mset)
    qed
  qed
qed

lemma cleanLoop_tokens:
  "\<exists>colsList. kept (cleanLoop rs) = map (\<lambda>cs. trim (joinWith (ascii '' | '') cs)) colsList
      \<and> mset (concat colsList) + mset (numericQueue (cleanLoop rs))
          \<subseteq># mset (concat (map survivingCols rs))"
proof (induction rs rule: rev_induct)
  case Nil
  show ?case by (simp add: cleanLoop_def)
next
  case (snoc line rs)
  then obtain colsList where
    k: "kept (cleanLoop rs) = map (\<lambda>cs. trim (joinWith (ascii '' | '') cs)) colsList"
    and m: "mset (concat colsList) + mset (numericQueue (cleanLoop rs))
          \<subseteq># mset (concat (map survivingCols rs))" by blast
  define st where "st = cleanLoop rs"
  define nc where "nc = survivingCols line"
  show ?case
  proof (cases "nc \<noteq> [] \<and> list_all isNumericToken nc")
    case True
    then have "kept (cleanLoop (rs @ [line])) = kept st"
      and "numericQueue (cleanLoop (rs @ [line])) = nc @ numericQueue st"
      using cleanRow_numeric(1,2) [of line st "length rs"]
      by (simp_all add: cleanLoop_snoc st_def nc_def)
    moreover have "mset (concat colsList) + mset (nc @ numericQueue st)
        \<subseteq># mset (concat (map survivingCols (rs @ [line])))"
      using m by (simp add: st_def nc_def)
    ultimately show ?thesis using k by (auto simp: st_def)
  next
    case False
    obtain cols' queue' first' where
      cq: "consumeQueue nc (numericQueue st) (firstQueueFill st) = (cols', queue', first')"
      by (cases "consumeQueue nc (numericQueue st) (firstQueueFill st)") auto
    then have cons: "mset cols' + mset queue' = mset nc + mset (numericQueue st)"
      by (rule consumeQueue_mset)
    note other = cleanRow_other [OF False [unfolded nc_def] cq [unfolded nc_def], of "length rs"]
    have q': "numericQueue (cleanLoop (rs @ [line])) = queue'"
      using other(1) by (simp add: cleanLoop_snoc st_def)
    have total: "mset (concat colsList) + mset cols' + mset queue'
        \<subseteq># mset (concat (map survivingCols (rs @ [line])))"
    proof -
      have "mset (concat colsList) + mset cols' + mset queue'
          = mset (concat colsList) + mset (numericQueue st) + mset nc"
        using cons by (simp add: ac_simps)
      also have "\<dots> \<subseteq># mset (concat (map survivingCols rs)) + mset nc"
        using m by (simp add: st_def)
      finally show ?thesis by (simp add: nc_def)
    qed
    show ?thesis
    proof (cases "trim (joinWith (ascii '' | '') cols') = []")
      case True
      then have kept_eq: "kept (cleanLoop (rs @ [line])) = kept (cleanLoop rs)"
        using other(2) by (simp add: cleanLoop_snoc st_def)
      have "mset (concat colsList) + mset queue'
          \<subseteq># mset (concat colsList) + mset cols' + mset queue'" by simp
      then have sub: "mset (concat colsList) + mset queue'
          \<subseteq># mset (concat (map survivingCols (rs @ [line])))"
        using total by (rule subset_mset.order_trans)
      show ?thesis
        by (rule exI [of _ colsList]) (simp only: kept_eq k q' sub simp_thms)
    next
      case nonempty: False
      then have kept_eq: "kept (cleanLoop (rs @ [line]))
          = kept (cleanLoop rs) @ [trim (joinWith (ascii '' | '') cols')]"
        using other(2) by (simp add: cleanLoop_snoc st_def)
      have sub: "mset (concat (colsList @ [cols'])) + mset queue'
          \<subseteq># mset (concat (map survivingCols (rs @ [line])))"
        using total by simp
      have "kept (cleanLoop (rs @ [line]))
          = map (\<lambda>cs. trim (joinWith (ascii '' | '') cs)) (colsList @ [cols'])"
        by (simp add: kept_eq k)
      with sub show ?thesis
        by (intro exI [of _ "colsList @ [cols']"]) (simp only: q' simp_thms)
    qed
  qed
qed

text \<open>
  Claim C10. The value returned by \<open>cleanRowsWithRules\<close> is made of the kept rows and the removed
  columns of the final loop state; the queue is no part of it. The kept rows are joins of
  column lists whose tokens, together with the tokens left in the queue, are separate
  occurrences among the surviving tokens of the input: what is left in the queue is in no
  kept row. In particular, when the last line of the input has only numeric surviving
  columns, these are queued (before whatever the queue still held) and the kept rows are
  those of the input without that line.
\<close>

theorem queue_never_flushed:
  "cleanRowsWithRules rs = (kept (cleanLoop rs), removed (cleanLoop rs))
   \<and> (\<exists>colsList. fst (cleanRowsWithRules rs)
          = map (\<lambda>cs. trim (joinWith (ascii '' | '') cs)) colsList
        \<and> mset (concat colsList) + mset (numericQueue (cleanLoop rs))
            \<subseteq># mset (concat (map survivingCols rs)))
   \<and> (survivingCols line \<noteq> [] \<and> list_all isNumericToken (survivingCols line)
      \<longrightarrow> fst (cleanRowsWithRules (rs @ [line])) = fst (cleanRowsWithRules rs)
          \<and> numericQueue (cleanLoop (rs @ [line]))
              = survivingCols line @ numericQueue (cleanLoop rs))"
proof -
  have "cleanRowsWithRules rs = (kept (cleanLoop rs), removed (cleanLoop rs))"
    by (simp add: cleanRowsWithRules_def Let_def)
  moreover have "\<exists>colsList. fst (cleanRowsWithRules rs)
          = map (\<lambda>cs. trim (joinWith (ascii '' | '') cs)) colsList
        \<and> mset (concat colsList) + mset (numericQueue (cleanLoop rs))
            \<subseteq># mset (concat (map survivingCols rs))"
    using cleanLoop_tokens [of rs] by (simp add: cleanRowsWithRules_def Let_def)
  moreover have "survivingCols line \<noteq> [] \<and> list_all isNumericToken (survivingCols line)
      \<longrightarrow> fst (cleanRowsWithRules (rs @ [line])) = fst (cleanRowsWithRules rs)
          \<and> numericQueue (cleanLoop (rs @ [line]))
              = survivingCols line @ numericQueue (cleanLoop rs)"
    using cleanRow_numeric(1,2) [of line "cleanLoop rs" "length rs"]
    by (simp add: cleanRowsWithRules_def Let_def cleanLoop_snoc)
  ultimately show ?thesis by blast
qed

theorem queue_never_flushed_witness:
  "fst (cleanRowsWithRules ([ascii ''ab | 3 | 1000'', ascii ''x | y | z | w | v | u''] @ [ascii ''12'']))
     = [ascii ''ab | 3 | 1000'', ascii ''x | y | z | w | v | u'']
   \<and> numericQueue (cleanLoop ([ascii ''ab | 3 | 1000'', ascii ''x | y | z | w | v | u''] @ [ascii ''12'']))
     = [ascii ''12'']"
proof -
  have s1: "survivingCols (ascii ''12'') = [ascii ''12'']" by code_simp
  have n1: "isNumericToken (ascii ''12'')" by code_simp
  have k1: "fst (cleanRowsWithRules [ascii ''ab | 3 | 1000'', ascii ''x | y | z | w | v | u''])
      = [ascii ''ab | 3 | 1000'', ascii ''x | y | z | w | v | u'']"
    and q1: "numericQueue (cleanLoop [ascii ''ab | 3 | 1000'', ascii ''x | y | z | w | v | u'']) = []"
    by code_simp+
  show ?thesis
    using queue_never_flushed [of "[ascii ''ab | 3 | 1000'', ascii ''x | y | z | w | v | u'']" "ascii ''12''"]
    by (simp add: s1 n1 k1 q1)
qed


section \<open>Properties of the table locator\<close>

lemma foldl_invariant:
  "P a \<Longrightarrow> (\<And>b x. P b \<Longrightarrow> x \<in> set xs \<Longrightarrow> P (f b x)) \<Longrightarrow> P (foldl f a xs)"
  by (induction xs arbitrary: a) auto

lemma mapSet_values:
  "(k', v') \<in> set (mapSet k v m) \<Longrightarrow> (k', v') = (k, v) \<or> (k', v') \<in> set m"
  by (induction m) (auto split: if_splits)

lemma mapSet_keeps:
  "(k', v') \<in> set m \<Longrightarrow> k' \<noteq> k \<Longrightarrow> (k', v') \<in> set (mapSet k v m)"
  by (induction m) auto

lemma mapSet_key_persists:
  "(\<exists>v'. (k', v') \<in> set m) \<or> k' = k \<Longrightarrow> \<exists>v'. (k', v') \<in> set (mapSet k v m)"
  by (induction m) (auto split: if_splits)

lemma minOf_Min: "minOf x xs = Min (set (x # xs))"
proof -
  have "foldl min x xs = fold min xs x"
    by (simp add: foldl_conv_fold min.commute)
  also have "\<dots> = Min (set (x # xs))" by (rule Min.set_eq_fold [symmetric])
  finally show ?thesis by (simp only: minOf_def)
qed

lemma stitched_row_in_range:
  "h \<in> set (findStitchedKeywords lines kws n) \<Longrightarrow> rowIndex h < length lines"
  by (auto simp: findStitchedKeywords_def Let_def in_set_enumerate_eq split: if_splits)

lemma stitched_normalized:
  "h \<in> set (findStitchedKeywords lines kws n) \<Longrightarrow> normalized h \<in> set (map stripSpaces kws)"
  by (auto simp: findStitchedKeywords_def Let_def split: if_splits)

text \<open>The two folds that build the map of \<open>checkIsItHeaderLine\<close>.\<close>

lemma header_map_values:
  assumes "h \<in> set (checkIsItHeaderLine lines)"
  shows "rowIndex h < length lines"
proof -
  let ?stitched = "findStitchedKeywords lines [kwUnitPrice] 2"
  let ?P = "\<lambda>m :: ((nat \<times> nat \<times> nat) \<times> stitchHit) list.
              \<forall>(k, v) \<in> set m. rowIndex v < length lines"
  let ?m1 = "foldl (\<lambda>m s. mapSet (hitKey s) s m) [] ?stitched"
  have m1: "?P ?m1"
  proof (rule foldl_invariant)
    show "?P []" by simp
    fix b x assume "?P b" and "x \<in> set ?stitched"
    then show "?P (mapSet (hitKey x) x b)"
      using stitched_row_in_range [of x lines "[kwUnitPrice]" 2]
      by (auto dest!: mapSet_values)
  qed
  let ?step = "\<lambda>m (s :: cellHit).
                 case getCell lines (rowIndex s) (colIndex s) of
                   None \<Rightarrow> m
                 | Some cell \<Rightarrow>
                     if cell \<noteq> [] \<and> stripSpaces cell = kwUnitPrice
                     then mapSet (rowIndex s, colIndex s, colIndex s)
                            \<lparr>rowIndex = rowIndex s, startCol = colIndex s, endCol = colIndex s,
                             stitched = cell, normalized = kwUnitPrice\<rparr> m
                     else m"
  let ?seeds = "findCellsByKeywords lines [[45800], [44032], kwUnitPrice]"
  have m2: "?P (foldl ?step ?m1 ?seeds)"
  proof (rule foldl_invariant)
    show "?P ?m1" by (rule m1)
    fix b x assume "?P b" and "x \<in> set ?seeds"
    then show "?P (?step b x)"
      by (auto simp: getCell_def split: option.splits if_splits dest!: mapSet_values)
  qed
  from assms have "h \<in> snd ` set (foldl ?step ?m1 ?seeds)"
    by (simp add: checkIsItHeaderLine_def Let_def)
  with m2 show ?thesis by auto
qed

lemma footer_single:
  "checkIsItFooterLine lines = f # fs \<Longrightarrow> fs = []"
  by (auto simp: checkIsItFooterLine_def Let_def split: option.splits list.splits prod.splits)

text \<open>
  Claim C6. Without a header hit the slice is empty (no start, no end, no rows). With a header
  hit and no footer hit the slice starts right after the header row, the lowest row index of
  the hits, and holds every line from there to the end of the input.
\<close>

theorem slice_without_header_or_footer:
  "(checkIsItHeaderLine lines = []
      \<longrightarrow> sliceRowsBetweenHeaderFooter lines = \<lparr>sliceStart = None, sliceEnd = None, rows = []\<rparr>)
   \<and> (checkIsItHeaderLine lines \<noteq> [] \<and> checkIsItFooterLine lines = []
      \<longrightarrow> sliceRowsBetweenHeaderFooter lines
          = \<lparr>sliceStart = Some (Min (rowIndex ` set (checkIsItHeaderLine lines)) + 1),
             sliceEnd = None,
             rows = drop (Min (rowIndex ` set (checkIsItHeaderLine lines)) + 1) lines\<rparr>)"
proof (intro conjI impI)
  assume "checkIsItHeaderLine lines = []"
  then show "sliceRowsBetweenHeaderFooter lines = \<lparr>sliceStart = None, sliceEnd = None, rows = []\<rparr>"
    by (simp add: sliceRowsBetweenHeaderFooter_def)
next
  assume a: "checkIsItHeaderLine lines \<noteq> [] \<and> checkIsItFooterLine lines = []"
  then obtain h hs where hh: "checkIsItHeaderLine lines = h # hs"
    by (cases "checkIsItHeaderLine lines") auto
  have "minOf (rowIndex h) (map rowIndex hs) = Min (rowIndex ` set (checkIsItHeaderLine lines))"
    by (simp add: minOf_Min hh)
  with a hh show "sliceRowsBetweenHeaderFooter lines
          = \<lparr>sliceStart = Some (Min (rowIndex ` set (checkIsItHeaderLine lines)) + 1),
             sliceEnd = None,
             rows = drop (Min (rowIndex ` set (checkIsItHeaderLine lines)) + 1) lines\<rparr>"
    by (simp add: sliceRowsBetweenHeaderFooter_def Let_def)
qed

theorem slice_without_header_or_footer_witness:
  "rows (sliceRowsBetweenHeaderFooter [ascii ''a | b'', ascii ''c'']) = []
   \<and> rows (sliceRowsBetweenHeaderFooter [ascii ''a | b'', kwUnitPrice, ascii ''c'', ascii ''d''])
       = [ascii ''c'', ascii ''d'']"
proof -
  have h1: "checkIsItHeaderLine [ascii ''a | b'', ascii ''c''] = []" by code_simp
  have h2: "map rowIndex (checkIsItHeaderLine [ascii ''a | b'', kwUnitPrice, ascii ''c'', ascii ''d'']) = [1]"
    by code_simp
  have f2: "checkIsItFooterLine [ascii ''a | b'', kwUnitPrice, ascii ''c'', ascii ''d''] = []"
    by code_simp
  from h2 have ne: "checkIsItHeaderLine [ascii ''a | b'', kwUnitPrice, ascii ''c'', ascii ''d''] \<noteq> []"
    by auto
  from h2 have "rowIndex ` set (checkIsItHeaderLine [ascii ''a | b'', kwUnitPrice, ascii ''c'', ascii ''d'']) = {1}"
    by (metis list.set_map list.simps(15) empty_set)
  then have mn: "Min (rowIndex ` set (checkIsItHeaderLine [ascii ''a | b'', kwUnitPrice, ascii ''c'', ascii ''d''])) = 1"
    by simp
  from slice_without_header_or_footer [of "[ascii ''a | b'', ascii ''c'']"] h1
  have a: "rows (sliceRowsBetweenHeaderFooter [ascii ''a | b'', ascii ''c'']) = []" by simp
  from slice_without_header_or_footer [of "[ascii ''a | b'', kwUnitPrice, ascii ''c'', ascii ''d'']"] ne f2
  have "sliceRowsBetweenHeaderFooter [ascii ''a | b'', kwUnitPrice, ascii ''c'', ascii ''d'']
      = \<lparr>sliceStart = Some (1 + 1), sliceEnd = None,
         rows = drop (1 + 1) [ascii ''a | b'', kwUnitPrice, ascii ''c'', ascii ''d'']\<rparr>"
    unfolding mn by blast
  then have b: "rows (sliceRowsBetweenHeaderFooter [ascii ''a | b'', kwUnitPrice, ascii ''c'', ascii ''d''])
       = [ascii ''c'', ascii ''d'']" by simp
  from a b show ?thesis by simp
qed

text \<open>
  Claim C5. When a header and a footer are found, the footer list has one element; the slice
  starts at the row right after the header row; its end is the footer's row index minus 1 for
  a banner marker and minus 2 for an assignee cell, clamped to the range from \<open>-1\<close> to the last
  index; and the rows are those from the start to the end, none when the end is below the
  start.
\<close>

theorem slice_between_header_and_footer:
  assumes "checkIsItHeaderLine lines \<noteq> []"
    and "checkIsItFooterLine lines = f # fs"
  shows "fs = []
     \<and> sliceStart (sliceRowsBetweenHeaderFooter lines)
         = Some (Min (rowIndex ` set (checkIsItHeaderLine lines)) + 1)
     \<and> sliceEnd (sliceRowsBetweenHeaderFooter lines)
         = Some (max (min (int (rowIndex f) - (case footerKind f of FooterMarker \<Rightarrow> 1 | Assignee \<Rightarrow> 2))
                         (int (length lines) - 1)) (- 1))
     \<and> rows (sliceRowsBetweenHeaderFooter lines)
         = (let start = Min (rowIndex ` set (checkIsItHeaderLine lines)) + 1;
                end' = max (min (int (rowIndex f) - (case footerKind f of FooterMarker \<Rightarrow> 1 | Assignee \<Rightarrow> 2))
                                (int (length lines) - 1)) (- 1)
            in if int start \<le> end' then take (nat (end' + 1) - start) (drop start lines) else [])"
proof -
  define H where "H = Min (rowIndex ` set (checkIsItHeaderLine lines))"
  define E where "E = max (min (int (rowIndex f) - (case footerKind f of FooterMarker \<Rightarrow> 1 | Assignee \<Rightarrow> 2))
                         (int (length lines) - 1)) (- 1)"
  from assms(1) obtain h hs where hh: "checkIsItHeaderLine lines = h # hs"
    by (cases "checkIsItHeaderLine lines") auto
  have mn: "minOf (rowIndex h) (map rowIndex hs) = H"
    by (simp add: minOf_Min hh H_def)
  have "H \<in> rowIndex ` set (checkIsItHeaderLine lines)"
    unfolding H_def using assms(1) by (intro Min_in) simp_all
  then have "H < length lines"
    using header_map_values [of _ lines] by auto
  then have start: "min (max (H + 1) 0) (length lines) = H + 1" by simp
  from assms(2) have fs: "fs = []" by (rule footer_single)
  have e: "earliestOf f fs = f" by (simp add: fs earliestOf_def)
  have cut: "max (min (case footerKind f of FooterMarker \<Rightarrow> int (rowIndex f) - 1
                                          | Assignee \<Rightarrow> int (rowIndex f) - 2)
                      (int (length lines) - 1)) (- 1) = E"
    unfolding E_def by (cases "footerKind f") simp_all
  have "sliceRowsBetweenHeaderFooter lines
      = \<lparr>sliceStart = Some (H + 1), sliceEnd = Some E,
         rows = (if int (H + 1) \<le> E then take (nat (E + 1) - (H + 1)) (drop (H + 1) lines) else [])\<rparr>"
    unfolding sliceRowsBetweenHeaderFooter_def hh assms(2) list.case Let_def mn e start cut ..
  then show ?thesis
    unfolding H_def [symmetric] E_def [symmetric] Let_def by (simp add: fs)
qed

theorem slice_between_header_and_footer_witness:
  "sliceStart (sliceRowsBetweenHeaderFooter bannerLines) = Some 1
   \<and> sliceEnd (sliceRowsBetweenHeaderFooter bannerLines) = Some 2
   \<and> rows (sliceRowsBetweenHeaderFooter bannerLines) = [ascii ''a'', ascii ''b'']
   \<and> sliceEnd (sliceRowsBetweenHeaderFooter assigneeLines) = Some 2
   \<and> rows (sliceRowsBetweenHeaderFooter assigneeLines) = [ascii ''a'', ascii ''b'']"
proof -
  have h1: "map rowIndex (checkIsItHeaderLine bannerLines) = [0]" by code_simp
  have f1: "map (\<lambda>f. (rowIndex f, footerKind f)) (checkIsItFooterLine bannerLines) = [(3, FooterMarker)]"
    by code_simp
  have h2: "map rowIndex (checkIsItHeaderLine assigneeLines) = [0]" by code_simp
  have f2: "map (\<lambda>f. (rowIndex f, footerKind f)) (checkIsItFooterLine assigneeLines) = [(4, Assignee)]"
    by code_simp
  from h1 have ne1: "checkIsItHeaderLine bannerLines \<noteq> []" by auto
  from h2 have ne2: "checkIsItHeaderLine assigneeLines \<noteq> []" by auto
  from h1 have "rowIndex ` set (checkIsItHeaderLine bannerLines) = {0}"
    by (metis list.set_map list.simps(15) empty_set)
  then have m1: "Min (rowIndex ` set (checkIsItHeaderLine bannerLines)) = 0" by simp
  from h2 have "rowIndex ` set (checkIsItHeaderLine assigneeLines) = {0}"
    by (metis list.set_map list.simps(15) empty_set)
  then have m2: "Min (rowIndex ` set (checkIsItHeaderLine assigneeLines)) = 0" by simp
  from f1 obtain g1 where g1: "checkIsItFooterLine bannerLines = g1 # []"
    and r1: "rowIndex g1 = 3" and k1: "footerKind g1 = FooterMarker" by auto
  from f2 obtain g2 where g2: "checkIsItFooterLine assigneeLines = g2 # []"
    and r2: "rowIndex g2 = 4" and k2: "footerKind g2 = Assignee" by auto
  have len: "length bannerLines = 4" "length assigneeLines = 5"
    by (simp_all add: bannerLines_def assigneeLines_def)
  have d1: "drop (Suc 0) bannerLines = [ascii ''a'', ascii ''b'', ascii ''=='' @ [54616, 50668, 48177] @ ascii ''=='']"
    and d2: "drop (Suc 0) assigneeLines = [ascii ''a'', ascii ''b'', ascii ''c'', kwAssignee]"
    by (simp_all add: bannerLines_def assigneeLines_def)
  from slice_between_header_and_footer [OF ne1 g1]
  have a: "sliceStart (sliceRowsBetweenHeaderFooter bannerLines) = Some 1
     \<and> sliceEnd (sliceRowsBetweenHeaderFooter bannerLines) = Some 2
     \<and> rows (sliceRowsBetweenHeaderFooter bannerLines) = [ascii ''a'', ascii ''b'']"
    by (simp add: m1 r1 k1 len d1)
  from slice_between_header_and_footer [OF ne2 g2]
  have b: "sliceEnd (sliceRowsBetweenHeaderFooter assigneeLines) = Some 2
     \<and> rows (sliceRowsBetweenHeaderFooter assigneeLines) = [ascii ''a'', ascii ''b'']"
    by (simp add: m2 r2 k2 len d2)
  from a b show ?thesis by simp
qed


section \<open>Header stitching\<close>

lemma stripSpaces_keyword: "stripSpaces kwUnitPrice = kwUnitPrice"
  by (simp add: stripSpaces_def kwUnitPrice_def isSpace_def)

lemma stripSpaces_joined:
  "stripSpaces (joinWith [32] [a, b]) = stripSpaces (a @ b)"
  by (simp add: stripSpaces_def isSpace_def)

lemma take_two_drop:
  "Suc i < length xs \<Longrightarrow> take 2 (drop i xs) = [xs ! i, xs ! Suc i]"
proof -
  assume a: "Suc i < length xs"
  then have "drop i xs = xs ! i # drop (Suc i) xs" by (simp add: Cons_nth_drop_Suc)
  moreover from a have "drop (Suc i) xs = xs ! Suc i # drop (Suc (Suc i)) xs"
    by (simp add: Cons_nth_drop_Suc)
  ultimately show ?thesis by (simp add: numeral_2_eq_2)
qed

lemma in_concat_map:
  "y \<in> set ys \<Longrightarrow> x \<in> set (f y) \<Longrightarrow> x \<in> set (concat (map f ys))"
  by auto

lemma spans_two:
  "Suc i < n \<Longrightarrow> 2 \<in> set (takeWhile (\<lambda>span. i + span - 1 < n) [1..<Suc 2])"
proof -
  assume a: "Suc i < n"
  have "[1..<Suc 2] = [1, 2]" by (simp add: upt_rec numeral_2_eq_2)
  with a show ?thesis by simp
qed

lemma stitched_two_columns:
  assumes r: "r < length lines"
    and i: "Suc i < length (splitToCols (lines ! r))"
    and kw: "stripSpaces (splitToCols (lines ! r) ! i @ splitToCols (lines ! r) ! Suc i) = kwUnitPrice"
  shows "\<lparr>rowIndex = r, startCol = i, endCol = i + 1,
          stitched = joinWith [32] [splitToCols (lines ! r) ! i, splitToCols (lines ! r) ! Suc i],
          normalized = kwUnitPrice\<rparr>
         \<in> set (findStitchedKeywords lines [kwUnitPrice] 2)"
  unfolding findStitchedKeywords_def Let_def
proof (rule in_concat_map [where y = "(r, lines ! r)"])
  show "(r, lines ! r) \<in> set (enumerate 0 lines)"
    using r by (simp add: in_set_enumerate_eq)
next
  let ?cs = "splitToCols (lines ! r)"
  have nm: "stripSpaces (joinWith [32] (take 2 (drop i ?cs))) = kwUnitPrice"
    using i kw by (simp only: take_two_drop stripSpaces_joined)
  show "\<lparr>rowIndex = r, startCol = i, endCol = i + 1,
          stitched = joinWith [32] [?cs ! i, ?cs ! Suc i], normalized = kwUnitPrice\<rparr>
        \<in> set (case (r, lines ! r) of (r, txt) \<Rightarrow>
             concat (map (\<lambda>i. concat (map (\<lambda>span.
                 if stripSpaces (joinWith [32] (take span (drop i (splitToCols txt))))
                      \<in> set (map stripSpaces [kwUnitPrice])
                 then [\<lparr>rowIndex = r, startCol = i, endCol = i + span - 1,
                        stitched = joinWith [32] (take span (drop i (splitToCols txt))),
                        normalized = stripSpaces (joinWith [32] (take span (drop i (splitToCols txt))))\<rparr>]
                 else [])
               (takeWhile (\<lambda>span. i + span - 1 < length (splitToCols txt)) [1..<Suc 2])))
             [0..<length (splitToCols txt)]))"
    unfolding prod.case
  proof (rule in_concat_map [where y = i])
    show "i \<in> set [0..<length ?cs]" using i by simp
  next
    show "\<lparr>rowIndex = r, startCol = i, endCol = i + 1,
            stitched = joinWith [32] [?cs ! i, ?cs ! Suc i], normalized = kwUnitPrice\<rparr>
          \<in> set (concat (map (\<lambda>span.
                 if stripSpaces (joinWith [32] (take span (drop i ?cs)))
                      \<in> set (map stripSpaces [kwUnitPrice])
                 then [\<lparr>rowIndex = r, startCol = i, endCol = i + span - 1,
                        stitched = joinWith [32] (take span (drop i ?cs)),
                        normalized = stripSpaces (joinWith [32] (take span (drop i ?cs)))\<rparr>]
                 else [])
               (takeWhile (\<lambda>span. i + span - 1 < length ?cs) [1..<Suc 2])))"
    proof (rule in_concat_map [where y = 2])
      show "2 \<in> set (takeWhile (\<lambda>span. i + span - 1 < length ?cs) [1..<Suc 2])"
        using i by (rule spans_two)
    next
      have "take 2 (drop i ?cs) = [?cs ! i, ?cs ! Suc i]" using i by (rule take_two_drop)
      with nm show "\<lparr>rowIndex = r, startCol = i, endCol = i + 1,
            stitched = joinWith [32] [?cs ! i, ?cs ! Suc i], normalized = kwUnitPrice\<rparr>
          \<in> set (if stripSpaces (joinWith [32] (take 2 (drop i ?cs)))
                      \<in> set (map stripSpaces [kwUnitPrice])
                 then [\<lparr>rowIndex = r, startCol = i, endCol = i + 2 - 1,
                        stitched = joinWith [32] (take 2 (drop i ?cs)),
                        normalized = stripSpaces (joinWith [32] (take 2 (drop i ?cs)))\<rparr>]
                 else [])"
        by (simp add: stripSpaces_keyword)
    qed
  qed
qed

lemma header_map_has_key:
  assumes "h \<in> set hits"
  shows "\<exists>v. (hitKey h, v) \<in> set (foldl (\<lambda>m s. mapSet (hitKey s) s m) m0 hits)"
proof -
  have "(\<exists>v. (k, v) \<in> set m) \<or> k \<in> hitKey ` set hs
      \<Longrightarrow> \<exists>v. (k, v) \<in> set (foldl (\<lambda>m s. mapSet (hitKey s) s m) m hs)" for k m hs
  proof (induction hs arbitrary: m)
    case Nil
    then show ?case by simp
  next
    case (Cons x hs)
    have "(\<exists>v. (k, v) \<in> set (mapSet (hitKey x) x m)) \<or> k \<in> hitKey ` set hs"
      using Cons.prems mapSet_key_persists [of k m "hitKey x" x] by auto
    from Cons.IH [OF this] show ?case by simp
  qed
  with assms show ?thesis by blast
qed

lemma header_map_entries:
  "\<forall>(k, v) \<in> set (foldl (\<lambda>m s. mapSet (hitKey s) s m) [] hits). v \<in> set hits \<and> hitKey v = k"
proof (rule foldl_invariant)
  show "\<forall>(k, v) \<in> set []. v \<in> set hits \<and> hitKey v = k" by simp
  fix b :: "((nat \<times> nat \<times> nat) \<times> stitchHit) list" and x
  assume "\<forall>(k, v) \<in> set b. v \<in> set hits \<and> hitKey v = k" and "x \<in> set hits"
  then show "\<forall>(k, v) \<in> set (mapSet (hitKey x) x b). v \<in> set hits \<and> hitKey v = k"
    by (auto dest!: mapSet_values)
qed

text \<open>
  Claim C9. If some row \<open>r\<close> has two adjacent columns \<open>i\<close> and \<open>i + 1\<close> whose texts, put
  together and stripped of white space, are the unit-price keyword (for instance the cells
  holding its first and its second syllable), then the header detector reports a hit on row
  \<open>r\<close> from column \<open>i\<close> to column \<open>i + 1\<close> whose normalized text is the keyword.
\<close>

theorem header_stitched_over_two_columns:
  assumes "r < length lines"
    and "Suc i < length (splitToCols (lines ! r))"
    and "stripSpaces (splitToCols (lines ! r) ! i @ splitToCols (lines ! r) ! Suc i) = kwUnitPrice"
  shows "\<exists>h \<in> set (checkIsItHeaderLine lines).
           rowIndex h = r \<and> startCol h = i \<and> endCol h = i + 1 \<and> normalized h = kwUnitPrice"
proof -
  let ?stitched = "findStitchedKeywords lines [kwUnitPrice] 2"
  let ?m1 = "foldl (\<lambda>m s. mapSet (hitKey s) s m) [] ?stitched"
  let ?step = "\<lambda>m (s :: cellHit).
                 case getCell lines (rowIndex s) (colIndex s) of
                   None \<Rightarrow> m
                 | Some cell \<Rightarrow>
                     if cell \<noteq> [] \<and> stripSpaces cell = kwUnitPrice
                     then mapSet (rowIndex s, colIndex s, colIndex s)
                            \<lparr>rowIndex = rowIndex s, startCol = colIndex s, endCol = colIndex s,
                             stitched = cell, normalized = kwUnitPrice\<rparr> m
                     else m"
  let ?seeds = "findCellsByKeywords lines [[45800], [44032], kwUnitPrice]"
  from stitched_two_columns [OF assms] obtain h0 where h0: "h0 \<in> set ?stitched"
    and key0: "hitKey h0 = (r, i, i + 1)" by (auto simp: hitKey_def)
  from header_map_has_key [OF h0, of "[]"] obtain v where v: "((r, i, i + 1), v) \<in> set ?m1"
    by (auto simp: key0)
  with header_map_entries [of ?stitched] have vin: "v \<in> set ?stitched" and vkey: "hitKey v = (r, i, i + 1)"
    by auto
  from stitched_normalized [OF vin] have vnorm: "normalized v = kwUnitPrice"
    by (simp add: stripSpaces_keyword)
  have "((r, i, i + 1), v) \<in> set (foldl ?step ?m1 ?seeds)"
  proof (rule foldl_invariant [where P = "\<lambda>m. ((r, i, i + 1), v) \<in> set m"])
    show "((r, i, i + 1), v) \<in> set ?m1" by (rule v)
    fix b x assume "((r, i, i + 1), v) \<in> set b"
    then show "((r, i, i + 1), v) \<in> set (?step b x)"
      by (auto split: option.splits intro!: mapSet_keeps)
  qed
  then have "v \<in> set (checkIsItHeaderLine lines)"
    by (force simp: checkIsItHeaderLine_def Let_def)
  with vkey vnorm show ?thesis by (auto simp: hitKey_def)
qed

theorem header_stitched_over_two_columns_witness:
  "\<exists>h \<in> set (checkIsItHeaderLine splitHeaderLines).
      rowIndex h = 0 \<and> startCol h = 1 \<and> endCol h = 2 \<and> normalized h = kwUnitPrice"
proof -
  have cs: "splitToCols (splitHeaderLines ! 0) = [ascii ''x'', [45800], [44032]]" by code_simp
  have "stripSpaces (splitToCols (splitHeaderLines ! 0) ! 1 @ splitToCols (splitHeaderLines ! 0) ! Suc 1)
      = kwUnitPrice"
    by (simp add: cs stripSpaces_def kwUnitPrice_def isSpace_def)
  moreover have "0 < length splitHeaderLines" by (simp add: splitHeaderLines_def)
  moreover have "Suc 1 < length (splitToCols (splitHeaderLines ! 0))" by (simp add: cs)
  ultimately show ?thesis
    using header_stitched_over_two_columns [of 0 splitHeaderLines 1]
    by (simp add: numeral_2_eq_2)
qed


section \<open>Properties of the text normalizer\<close>

subsection \<open>Replacing a fixed pattern\<close>

lemma replaceAllStr_absent:
  "(\<And>n. n < length s \<Longrightarrow> take (length p) (drop n s) \<noteq> p) \<Longrightarrow> replaceAllStr p new s = s"
proof (induction s)
  case Nil
  show ?case by simp
next
  case (Cons c cs)
  from Cons.prems [of 0] have "take (length p) (c # cs) \<noteq> p" by simp
  moreover have "replaceAllStr p new cs = cs"
  proof (rule Cons.IH)
    fix n assume "n < length cs"
    with Cons.prems [of "Suc n"] show "take (length p) (drop n cs) \<noteq> p" by simp
  qed
  ultimately show ?case by simp
qed

lemma replaceAllStr_single_absent:
  "c \<notin> set s \<Longrightarrow> replaceAllStr (c # p) new s = s"
proof (rule replaceAllStr_absent)
  fix n assume c: "c \<notin> set s" and n: "n < length s"
  show "take (length (c # p)) (drop n s) \<noteq> c # p"
  proof
    assume "take (length (c # p)) (drop n s) = c # p"
    then have "c \<in> set (take (length (c # p)) (drop n s))" by simp
    then have "c \<in> set s" by (meson in_set_takeD in_set_dropD)
    with c show False ..
  qed
qed

lemma set_replaceAllStr:
  "set (replaceAllStr p new s) \<subseteq> set s \<union> set new"
proof (induction p new s rule: replaceAllStr.induct)
  case (1 p new)
  show ?case by simp
next
  case (2 p new c cs)
  show ?case
  proof (cases "p \<noteq> [] \<and> take (length p) (c # cs) = p")
    case True
    with 2(1) have "set (replaceAllStr p new (drop (length p) (c # cs)))
        \<subseteq> set (drop (length p) (c # cs)) \<union> set new" by simp
    moreover have "set (drop (length p) (c # cs)) \<subseteq> set (c # cs)" by (rule set_drop_subset)
    ultimately show ?thesis using True by auto
  next
    case False
    with 2(2) have "set (replaceAllStr p new cs) \<subseteq> set cs \<union> set new" by simp
    with False show ?thesis by auto
  qed
qed

lemma set_replaceAllStr_single:
  "c \<notin> set new \<Longrightarrow> c \<notin> set (replaceAllStr [c] new s)"
proof (induction "[c]" new s rule: replaceAllStr.induct)
  case (1 new)
  show ?case by simp
next
  case (2 new x xs)
  show ?case
  proof (cases "x = c")
    case True
    with 2 show ?thesis by simp
  next
    case False
    with 2 show ?thesis by simp
  qed
qed


subsection \<open>Adjacent characters\<close>

lemma noAdjP_Cons:
  "noAdjP P Q (x # v) \<longleftrightarrow> noAdjP P Q v \<and> \<not> (v \<noteq> [] \<and> P x \<and> Q (hd v))"
  by (cases v) auto

lemma noAdjP_append:
  "noAdjP P Q (u @ v) \<longleftrightarrow>
     noAdjP P Q u \<and> noAdjP P Q v \<and> \<not> (u \<noteq> [] \<and> v \<noteq> [] \<and> P (last u) \<and> Q (hd v))"
proof (induction u)
  case Nil
  show ?case by simp
next
  case (Cons x u)
  show ?case
  proof (cases u)
    case Nil
    then show ?thesis by (simp add: noAdjP_Cons)
  next
    case (Cons y u')
    with Cons.IH show ?thesis by (auto simp: noAdjP_Cons)
  qed
qed

lemma noAdjP_drop: "noAdjP P Q s \<Longrightarrow> noAdjP P Q (drop n s)"
proof -
  assume "noAdjP P Q s"
  then have "noAdjP P Q (take n s @ drop n s)" by simp
  then show ?thesis unfolding noAdjP_append by blast
qed

lemma noAdjP_dropWhile: "noAdjP P Q s \<Longrightarrow> noAdjP P Q (dropWhile R s)"
  using noAdjP_drop [of P Q s "length (takeWhile R s)"] by (simp add: dropWhile_eq_drop)

lemma noAdjP_rev: "noAdjP P Q (rev s) \<longleftrightarrow> noAdjP Q P s"
  by (induction s) (auto simp: noAdjP_append noAdjP_Cons hd_rev last_rev)

lemma noAdjP_trim: "noAdjP P Q s \<Longrightarrow> noAdjP P Q (trim s)"
  by (simp add: trim_def noAdjP_rev noAdjP_dropWhile)

lemma noAdj_Cons:
  "noAdj a b (x # v) \<longleftrightarrow> noAdj a b v \<and> \<not> (v \<noteq> [] \<and> x = a \<and> hd v = b)"
  by (simp add: noAdj_def noAdjP_Cons)

lemma noAdj_Nil: "noAdj a b []"
  by (simp add: noAdj_def)

lemma noAdj_append:
  "noAdj a b (u @ v) \<longleftrightarrow>
     noAdj a b u \<and> noAdj a b v \<and> \<not> (u \<noteq> [] \<and> v \<noteq> [] \<and> last u = a \<and> hd v = b)"
  by (simp add: noAdj_def noAdjP_append)

lemma noAdj_notin: "a \<notin> set u \<Longrightarrow> noAdj a b u"
  by (induction u) (auto simp: noAdj_Cons noAdj_Nil)

lemma noAdj_drop: "noAdj a b s \<Longrightarrow> noAdj a b (drop n s)"
  by (simp add: noAdj_def noAdjP_drop)

lemma noAdj_infix: "noAdj a b (u @ s @ v) \<Longrightarrow> noAdj a b s"
  unfolding noAdj_append by blast

lemma noAdj_dropWhile: "noAdj a b s \<Longrightarrow> noAdj a b (dropWhile P s)"
  by (simp add: noAdj_def noAdjP_dropWhile)

lemma noAdj_trim: "noAdj a b s \<Longrightarrow> noAdj a b (trim s)"
  by (simp add: noAdj_def noAdjP_trim)

text \<open>A replacement preserves the absence of a pair when the new text holds neither character.\<close>

lemma noAdj_replace_preserved:
  assumes new: "new \<noteq> []" "a \<notin> set new" "b \<notin> set new"
  shows "noAdj a b s \<Longrightarrow>
     noAdj a b (replaceAllStr p new s)
     \<and> (replaceAllStr p new s \<noteq> []
          \<longrightarrow> hd (replaceAllStr p new s) \<in> set new
              \<or> (s \<noteq> [] \<and> hd (replaceAllStr p new s) = hd s))"
proof (induction "length s" arbitrary: s rule: less_induct)
  case less
  show ?case
  proof (cases s)
    case Nil
    then show ?thesis by (simp add: noAdj_Nil)
  next
    case (Cons c cs)
    show ?thesis
    proof (cases "p \<noteq> [] \<and> take (length p) (c # cs) = p")
      case True
      define R where "R = replaceAllStr p new (drop (length p) (c # cs))"
      have eq: "replaceAllStr p new s = new @ R" using True Cons by (simp add: R_def)
      have "length (drop (length p) (c # cs)) < length s" using True Cons by simp
      moreover have "noAdj a b (drop (length p) (c # cs))"
        using less.prems Cons noAdj_drop by blast
      ultimately have "noAdj a b R" unfolding R_def using less.hyps by blast
      moreover have "noAdj a b new" using new(2) by (rule noAdj_notin)
      moreover have "last new \<noteq> a" using new(1,2) last_in_set by metis
      ultimately have "noAdj a b (new @ R)" by (simp add: noAdj_append)
      moreover have "hd (new @ R) \<in> set new" using new(1) by simp
      ultimately show ?thesis by (simp add: eq)
    next
      case False
      define R where "R = replaceAllStr p new cs"
      have eq: "replaceAllStr p new s = c # R" using False Cons by (auto simp: R_def)
      from less.prems Cons have cs: "noAdj a b cs" and bd: "\<not> (cs \<noteq> [] \<and> c = a \<and> hd cs = b)"
        by (simp_all add: noAdj_Cons)
      have "length cs < length s" using Cons by simp
      with less.hyps cs have ih: "noAdj a b R"
        "R \<noteq> [] \<longrightarrow> hd R \<in> set new \<or> (cs \<noteq> [] \<and> hd R = hd cs)"
        unfolding R_def by blast+
      have "\<not> (R \<noteq> [] \<and> c = a \<and> hd R = b)"
        using ih(2) bd new(3) by auto
      with ih(1) have "noAdj a b (c # R)" by (simp add: noAdj_Cons)
      then show ?thesis unfolding eq using Cons by simp
    qed
  qed
qed

text \<open>Replacing the two-character pattern itself by a third character leaves no occurrence.\<close>

lemma noAdj_replace_created:
  assumes c: "c \<noteq> a" "c \<noteq> b"
  shows "noAdj a b (replaceAllStr [a, b] [c] s)
     \<and> (replaceAllStr [a, b] [c] s \<noteq> []
          \<longrightarrow> hd (replaceAllStr [a, b] [c] s) = c
              \<or> (s \<noteq> [] \<and> hd (replaceAllStr [a, b] [c] s) = hd s))"
proof (induction "length s" arbitrary: s rule: less_induct)
  case less
  show ?case
  proof (cases s)
    case Nil
    then show ?thesis by (simp add: noAdj_Nil)
  next
    case (Cons x xs)
    show ?thesis
    proof (cases "take 2 (x # xs) = [a, b]")
      case True
      define R where "R = replaceAllStr [a, b] [c] (drop 2 (x # xs))"
      have eq: "replaceAllStr [a, b] [c] s = c # R" using True Cons by (auto simp: R_def)
      have "length (drop 2 (x # xs)) < length s" using Cons by simp
      with less.hyps have "noAdj a b R" unfolding R_def by blast
      with c(1) have "noAdj a b (c # R)" by (simp add: noAdj_Cons)
      then show ?thesis by (simp add: eq)
    next
      case False
      define R where "R = replaceAllStr [a, b] [c] xs"
      have eq: "replaceAllStr [a, b] [c] s = x # R" using False Cons by (auto simp: R_def)
      have "length xs < length s" using Cons by simp
      with less.hyps have ih: "noAdj a b R"
        "R \<noteq> [] \<longrightarrow> hd R = c \<or> (xs \<noteq> [] \<and> hd R = hd xs)"
        unfolding R_def by blast+
      have "\<not> (R \<noteq> [] \<and> x = a \<and> hd R = b)"
      proof
        assume h: "R \<noteq> [] \<and> x = a \<and> hd R = b"
        with ih(2) c(2) have "xs \<noteq> [] \<and> hd xs = b" by auto
        with h have "take 2 (x # xs) = [a, b]" by (cases xs) (simp_all add: numeral_2_eq_2)
        with False show False ..
      qed
      with ih(1) have "noAdj a b (x # R)" by (simp add: noAdj_Cons)
      then show ?thesis unfolding eq using Cons by simp
    qed
  qed
qed

lemma noAdj_collapseSpaces:
  assumes ab: "\<not> isSpace a" "\<not> isSpace b"
  shows "noAdj a b s \<Longrightarrow>
     noAdj a b (collapseSpaces s)
     \<and> (collapseSpaces s \<noteq> []
          \<longrightarrow> hd (collapseSpaces s) = 32 \<or> (s \<noteq> [] \<and> hd (collapseSpaces s) = hd s))"
proof (induction "length s" arbitrary: s rule: less_induct)
  case less
  have sp: "isSpace 32" by (simp add: isSpace_def)
  show ?case
  proof (cases s)
    case Nil
    then show ?thesis by (simp add: noAdj_Nil)
  next
    case (Cons c cs)
    show ?thesis
    proof (cases "isSpace c \<and> (case cs of [] \<Rightarrow> False | d # _ \<Rightarrow> isSpace d)")
      case True
      define R where "R = collapseSpaces (dropWhile isSpace cs)"
      have eq: "collapseSpaces s = 32 # R" using True Cons by (simp add: R_def)
      have "length (dropWhile isSpace cs) < length s"
        using Cons by (simp add: le_imp_less_Suc length_dropWhile_le)
      moreover have "noAdj a b (dropWhile isSpace cs)"
        using less.prems Cons by (simp add: noAdj_Cons noAdj_dropWhile)
      ultimately have "noAdj a b R" unfolding R_def using less.hyps by blast
      moreover have "32 \<noteq> a" using ab(1) sp by auto
      ultimately have "noAdj a b (32 # R)" by (simp add: noAdj_Cons)
      then show ?thesis by (simp add: eq)
    next
      case False
      define R where "R = collapseSpaces cs"
      have eq: "collapseSpaces s = c # R" using False Cons by (auto simp: R_def)
      from less.prems Cons have cs: "noAdj a b cs" and bd: "\<not> (cs \<noteq> [] \<and> c = a \<and> hd cs = b)"
        by (simp_all add: noAdj_Cons)
      have "length cs < length s" using Cons by simp
      with less.hyps cs have ih: "noAdj a b R"
        "R \<noteq> [] \<longrightarrow> hd R = 32 \<or> (cs \<noteq> [] \<and> hd R = hd cs)"
        unfolding R_def by blast+
      have "\<not> (R \<noteq> [] \<and> c = a \<and> hd R = b)"
        using ih(2) bd ab(2) sp by auto
      with ih(1) have "noAdj a b (c # R)" by (simp add: noAdj_Cons)
      then show ?thesis unfolding eq using Cons by simp
    qed
  qed
qed

lemma noAdj_joinWith:
  "(\<And>l. l \<in> set ls \<Longrightarrow> noAdj a b l) \<Longrightarrow> c \<noteq> a \<Longrightarrow> c \<noteq> b \<Longrightarrow> noAdj a b (joinWith [c] ls)"
proof (induction "[c]" ls rule: joinWith.induct)
  case 1
  show ?case by (simp add: noAdj_Nil)
next
  case (2 x)
  then show ?case by simp
next
  case (3 x y ys)
  have "noAdj a b (joinWith [c] (y # ys))" using 3 by simp
  then have "noAdj a b (c # joinWith [c] (y # ys))" using 3(3) by (simp add: noAdj_Cons)
  moreover have "noAdj a b x" using 3(2) by simp
  ultimately show ?case using 3(4) by (simp add: noAdj_append)
qed


subsection \<open>The wrapper, lines and white space\<close>

lemma findClose_infix:
  "findClose acc cs = Some inner \<Longrightarrow> \<exists>v. rev acc @ cs = inner @ 34 # v"
proof (induction cs arbitrary: acc)
  case Nil
  then show ?case by simp
next
  case (Cons c cs)
  show ?case
  proof (cases "c = 34 \<and> isWrapTail cs")
    case True
    with Cons.prems show ?thesis by auto
  next
    case False
    with Cons.prems have "findClose (c # acc) cs = Some inner" by auto
    from Cons.IH [OF this] show ?thesis by simp
  qed
qed

lemma wrapMatch_infix:
  "wrapMatch s = Some inner \<Longrightarrow> \<exists>u v. s = u @ inner @ v \<and> v \<noteq> []"
proof -
  assume a: "wrapMatch s = Some inner"
  then obtain cs where d: "dropWhile isSpace s = 34 # cs" and f: "findClose [] cs = Some inner"
    by (auto simp: wrapMatch_def split: list.splits if_splits)
  from findClose_infix [OF f] obtain v where "cs = inner @ 34 # v" by auto
  with d have "s = (takeWhile isSpace s @ [34]) @ inner @ 34 # v"
    by (metis append.assoc append_Cons append_Nil takeWhile_dropWhile_id)
  then show ?thesis by blast
qed

lemma splitLines_nonempty: "splitLines s \<noteq> []"
  by (induction s) (auto split: list.splits)

lemma splitLines_hd:
  "splitLines s = l # ls \<Longrightarrow> l \<noteq> [] \<Longrightarrow> hd l = hd s"
  by (cases s) (auto split: if_splits list.splits)

lemma splitLines_no_newline:
  "l \<in> set (splitLines s) \<Longrightarrow> 10 \<notin> set l"
  by (induction s arbitrary: l) (auto split: if_splits list.splits)

lemma splitLines_subset:
  "l \<in> set (splitLines s) \<Longrightarrow> set l \<subseteq> set s"
  by (induction s arbitrary: l) (fastforce split: if_splits list.splits)+

lemma splitLines_noAdj:
  "noAdj a b s \<Longrightarrow> l \<in> set (splitLines s) \<Longrightarrow> noAdj a b l"
proof (induction s arbitrary: l)
  case Nil
  then show ?case by (simp add: noAdj_Nil)
next
  case (Cons c cs)
  from Cons.prems(1) have cs: "noAdj a b cs" and bd: "\<not> (cs \<noteq> [] \<and> c = a \<and> hd cs = b)"
    by (simp_all add: noAdj_Cons)
  obtain l0 ls where sp: "splitLines cs = l0 # ls"
    using splitLines_nonempty [of cs] by (cases "splitLines cs") auto
  show ?case
  proof (cases "c = 10")
    case True
    with Cons.prems(2) have "l = [] \<or> l \<in> set (splitLines cs)" by simp
    with Cons.IH [OF cs] show ?thesis by (auto simp: noAdj_Nil)
  next
    case False
    with Cons.prems(2) sp have "l = c # l0 \<or> l \<in> set ls" by simp
    moreover have "noAdj a b (c # l0)"
    proof -
      have "noAdj a b l0" using Cons.IH [OF cs, of l0] sp by simp
      moreover have "\<not> (l0 \<noteq> [] \<and> c = a \<and> hd l0 = b)"
      proof
        assume h: "l0 \<noteq> [] \<and> c = a \<and> hd l0 = b"
        with splitLines_hd [OF sp] have "hd cs = b" by simp
        moreover from h sp have "cs \<noteq> []" by (cases cs) auto
        ultimately show False using bd h by simp
      qed
      ultimately show ?thesis by (simp add: noAdj_Cons)
    qed
    moreover have "noAdj a b l'" if "l' \<in> set ls" for l'
      using Cons.IH [OF cs, of l'] sp that by simp
    ultimately show ?thesis by blast
  qed
qed

lemma splitLines_single: "10 \<notin> set l \<Longrightarrow> splitLines l = [l]"
  by (induction l) auto

lemma splitLines_append: "10 \<notin> set l \<Longrightarrow> splitLines (l @ 10 # r) = l # splitLines r"
  by (induction l) auto

lemma splitLines_joinWith:
  "ls \<noteq> [] \<Longrightarrow> (\<And>l. l \<in> set ls \<Longrightarrow> 10 \<notin> set l) \<Longrightarrow> splitLines (joinWith [10] ls) = ls"
proof (induction "[10 :: int]" ls rule: joinWith.induct)
  case 1
  then show ?case by simp
next
  case (2 x)
  then show ?case by (simp add: splitLines_single)
next
  case (3 x y ys)
  have "splitLines (joinWith [10] (y # ys)) = y # ys" using 3 by simp
  moreover have "10 \<notin> set x" using 3(3) by simp
  ultimately show ?case by (simp add: splitLines_append)
qed

lemma set_joinWith:
  "set (joinWith [c] ls) \<subseteq> insert c (\<Union> (set ` set ls))"
  by (induction "[c]" ls rule: joinWith.induct) auto

lemma set_collapseSpaces: "set (collapseSpaces s) \<subseteq> insert 32 (set s)"
proof (induction s rule: collapseSpaces.induct)
  case 1
  show ?case by simp
next
  case (2 c cs)
  show ?case
  proof (cases "isSpace c \<and> (case cs of [] \<Rightarrow> False | d # _ \<Rightarrow> isSpace d)")
    case True
    with 2(1) have "set (collapseSpaces (dropWhile isSpace cs)) \<subseteq> insert 32 (set (dropWhile isSpace cs))"
      by simp
    moreover have "set (dropWhile isSpace cs) \<subseteq> set cs" by (rule set_dropWhileD [THEN subsetI])
    ultimately show ?thesis using True by auto
  next
    case False
    with 2(2) have "set (collapseSpaces cs) \<subseteq> insert 32 (set cs)" by simp
    with False show ?thesis by auto
  qed
qed

lemma set_trim: "set (trim s) \<subseteq> set s"
proof -
  have "set (dropWhile isSpace (rev (dropWhile isSpace s))) \<subseteq> set (rev (dropWhile isSpace s))"
    by (rule set_dropWhileD [THEN subsetI])
  moreover have "set (dropWhile isSpace s) \<subseteq> set s" by (rule set_dropWhileD [THEN subsetI])
  ultimately show ?thesis by (auto simp: trim_def)
qed

lemma set_normLine: "set (normLine l) \<subseteq> insert 32 (set l)"
  using set_trim [of "collapseSpaces l"] set_collapseSpaces [of l] by (auto simp: normLine_def)

lemma trim_fixed:
  "(s = [] \<or> (\<not> isSpace (hd s) \<and> \<not> isSpace (last s))) \<Longrightarrow> trim s = s"
proof (cases "s = []")
  case True
  then show ?thesis by (simp add: trim_def)
next
  case False
  assume "s = [] \<or> (\<not> isSpace (hd s) \<and> \<not> isSpace (last s))"
  with False have h: "\<not> isSpace (hd s)" and l: "\<not> isSpace (last s)" by simp_all
  from h False have "dropWhile isSpace s = s" by (cases s) auto
  moreover from l False have "dropWhile isSpace (rev s) = rev s"
    by (cases "rev s") (auto simp: last_rev [symmetric] hd_rev)
  ultimately show ?thesis by (simp add: trim_def)
qed

lemma trim_ends:
  "trim s = [] \<or> (\<not> isSpace (hd (trim s)) \<and> \<not> isSpace (last (trim s)))"
proof (cases "trim s = []")
  case True
  then show ?thesis ..
next
  case False
  define d where "d = dropWhile isSpace s"
  define e where "e = dropWhile isSpace (rev d)"
  have t: "trim s = rev e" by (simp add: trim_def d_def e_def)
  with False have ene: "e \<noteq> []" by simp
  then have "\<not> isSpace (hd e)" unfolding e_def by (rule hd_dropWhile)
  then have last_ok: "\<not> isSpace (last (trim s))" using ene by (simp add: t last_rev)
  from ene have dne: "d \<noteq> []" unfolding e_def by auto
  then have hd_d: "\<not> isSpace (hd d)" unfolding d_def by (rule hd_dropWhile)
  have "last (rev d) = hd d" using dne by (simp add: last_rev)
  have "\<exists>u. rev d = u @ e" unfolding e_def
    by (metis takeWhile_dropWhile_id)
  then obtain u where u: "rev d = u @ e" ..
  then have "d = rev e @ rev u" by (metis rev_append rev_rev_ident)
  with ene have "hd d = hd (rev e)" by simp
  with hd_d have "\<not> isSpace (hd (trim s))" by (simp add: t)
  with last_ok show ?thesis by simp
qed

lemma trim_idem: "trim (trim s) = trim s"
  using trim_ends [of s] by (rule trim_fixed)

subsection \<open>Runs of white space\<close>

lemma noRun_collapseSpaces:
  "noRun (collapseSpaces s)
   \<and> (collapseSpaces s \<noteq> [] \<and> isSpace (hd (collapseSpaces s))
        \<longrightarrow> (case collapseSpaces s of [] \<Rightarrow> True | _ # r \<Rightarrow> r = [] \<or> \<not> isSpace (hd r)))"
proof (induction "length s" arbitrary: s rule: less_induct)
  case less
  show ?case
  proof (cases s)
    case Nil
    then show ?thesis by (simp add: noRun_def)
  next
    case (Cons c cs)
    show ?thesis
    proof (cases "isSpace c \<and> (case cs of [] \<Rightarrow> False | d # _ \<Rightarrow> isSpace d)")
      case True
      define D where "D = dropWhile isSpace cs"
      define R where "R = collapseSpaces D"
      have eq: "collapseSpaces s = 32 # R" using True Cons by (simp add: R_def D_def)
      have "length D < length s"
        using Cons by (simp add: D_def le_imp_less_Suc length_dropWhile_le)
      with less have ih: "noRun R" unfolding R_def by blast
      have hdR: "R = [] \<or> \<not> isSpace (hd R)"
      proof (cases D)
        case Nil
        then show ?thesis by (simp add: R_def)
      next
        case (Cons d ds)
        then have "\<not> isSpace d" using hd_dropWhile [of isSpace cs] by (simp add: D_def)
        then show ?thesis using Cons by (simp add: R_def)
      qed
      with ih have "noRun (32 # R)" by (auto simp: noRun_def noAdjP_Cons)
      with hdR show ?thesis by (simp add: eq)
    next
      case False
      define R where "R = collapseSpaces cs"
      have eq: "collapseSpaces s = c # R" using False Cons by (auto simp: R_def)
      have "length cs < length s" using Cons by simp
      with less have ih: "noRun R" unfolding R_def by blast
      have hdR: "isSpace c \<longrightarrow> R = [] \<or> \<not> isSpace (hd R)"
      proof
        assume sc: "isSpace c"
        show "R = [] \<or> \<not> isSpace (hd R)"
        proof (cases cs)
          case Nil
          then show ?thesis by (simp add: R_def)
        next
          case (Cons d ds)
          with False sc have "\<not> isSpace d" by simp
          then show ?thesis using Cons by (simp add: R_def)
        qed
      qed
      with ih have "noRun (c # R)" by (auto simp: noRun_def noAdjP_Cons)
      with hdR show ?thesis by (simp add: eq)
    qed
  qed
qed

lemma collapseSpaces_fixed: "noRun s \<Longrightarrow> collapseSpaces s = s"
proof (induction s)
  case Nil
  show ?case by simp
next
  case (Cons c cs)
  from Cons.prems have r: "noRun cs" and b: "\<not> (cs \<noteq> [] \<and> isSpace c \<and> isSpace (hd cs))"
    by (simp_all add: noRun_def noAdjP_Cons)
  note ih = Cons.IH [OF r]
  show ?case
  proof (cases cs)
    case Nil
    then show ?thesis by simp
  next
    case (Cons d ds)
    with b have "\<not> isSpace c \<or> \<not> isSpace d" by simp
    with ih Cons show ?thesis by auto
  qed
qed

lemma normLine_idem: "normLine (normLine l) = normLine l"
proof -
  have "noRun (collapseSpaces l)" using noRun_collapseSpaces [of l] by blast
  then have "noRun (trim (collapseSpaces l))" by (simp add: noRun_def noAdjP_trim)
  then have "collapseSpaces (trim (collapseSpaces l)) = trim (collapseSpaces l)"
    by (rule collapseSpaces_fixed)
  then show ?thesis by (simp add: normLine_def trim_idem)
qed


subsection \<open>The shape of a normalized text\<close>

lemma noAdj_take2: "noAdj a b s \<Longrightarrow> take 2 (drop n s) \<noteq> [a, b]"
proof
  assume s: "noAdj a b s" and t: "take 2 (drop n s) = [a, b]"
  from t obtain r where d: "drop n s = a # b # r"
    by (cases "drop n s"; cases "tl (drop n s)") (auto simp: numeral_2_eq_2)
  from noAdj_drop [OF s, of n] have "noAdj a b (a # b # r)" by (simp add: d)
  then show False by (simp add: noAdj_Cons)
qed

lemma noAdj_absent2: "noAdj a b s \<Longrightarrow> replaceAllStr [a, b] new s = s"
proof (rule replaceAllStr_absent)
  fix n assume "noAdj a b s"
  then show "take (length [a, b]) (drop n s) \<noteq> [a, b]"
    using noAdj_take2 [of a b s n] by (simp add: numeral_2_eq_2)
qed

lemma noAdj_absent4: "noAdj a b s \<Longrightarrow> replaceAllStr [p, q, a, b] new s = s"
proof (rule replaceAllStr_absent)
  fix n assume s: "noAdj a b s"
  show "take (length [p, q, a, b]) (drop n s) \<noteq> [p, q, a, b]"
  proof
    assume t: "take (length [p, q, a, b]) (drop n s) = [p, q, a, b]"
    have len: "length [p, q, a, b] = 4" by simp
    have "take 4 (drop n s) = [p, q, a, b]" using t unfolding len .
    then have "drop 2 (take 4 (drop n s)) = [a, b]" by simp
    then have "take 2 (drop (2 + n) s) = [a, b]" by (simp add: drop_take)
    with noAdj_take2 [OF s, of "2 + n"] show False by simp
  qed
qed

lemma cleanOcrText_eq:
  "cleanOcrText x = joinWith [10] (normLines (replaceAllStr [9] (ascii '' | '') (unwrapped x)))"
  unfolding cleanOcrText_def unescaped_def unwrapped_def normLines_def Let_def by (rule refl)

lemma unescaped_props:
  "13 \<notin> set (unescaped x) \<and> noAdj 92 110 (unescaped x) \<and> noAdj 92 116 (unescaped x)"
proof -
  define s1 where "s1 = replaceAllStr [92, 114, 92, 110] [10] x"
  define s2 where "s2 = replaceAllStr [92, 110] [10] s1"
  define s3 where "s3 = replaceAllStr [92, 116] [9] s2"
  define s4 where "s4 = replaceAllStr [13, 10] [10] s3"
  define s5 where "s5 = replaceAllStr [13] [10] s4"
  have u: "unescaped x = s5" by (simp add: unescaped_def s1_def s2_def s3_def s4_def s5_def)
  have "13 \<notin> set s5" unfolding s5_def by (rule set_replaceAllStr_single) simp
  moreover have n2: "noAdj 92 110 s2"
    unfolding s2_def using noAdj_replace_created [of 10 92 110 s1] by simp
  have n3: "noAdj 92 110 s3"
    unfolding s3_def using noAdj_replace_preserved [of "[9]" 92 110 s2 "[92, 116]"] n2 by simp
  have n4: "noAdj 92 110 s4"
    unfolding s4_def using noAdj_replace_preserved [of "[10]" 92 110 s3 "[13, 10]"] n3 by simp
  have n5: "noAdj 92 110 s5"
    unfolding s5_def using noAdj_replace_preserved [of "[10]" 92 110 s4 "[13]"] n4 by simp
  have t3: "noAdj 92 116 s3"
    unfolding s3_def using noAdj_replace_created [of 9 92 116 s2] by simp
  have t4: "noAdj 92 116 s4"
    unfolding s4_def using noAdj_replace_preserved [of "[10]" 92 116 s3 "[13, 10]"] t3 by simp
  have t5: "noAdj 92 116 s5"
    unfolding s5_def using noAdj_replace_preserved [of "[10]" 92 116 s4 "[13]"] t4 by simp
  ultimately show ?thesis using n5 t5 by (simp add: u)
qed

lemma unwrapped_props:
  "13 \<notin> set (unwrapped x) \<and> noAdj 92 110 (unwrapped x) \<and> noAdj 92 116 (unwrapped x)"
proof (cases "wrapMatch (unescaped x)")
  case None
  then show ?thesis using unescaped_props [of x] by (simp add: unwrapped_def)
next
  case (Some inner)
  from wrapMatch_infix [OF Some] obtain u v where e: "unescaped x = u @ inner @ v" by blast
  have "13 \<notin> set inner" using unescaped_props [of x] by (simp add: e)
  moreover have "noAdj 92 110 inner"
    using unescaped_props [of x] noAdj_infix [of 92 110 u inner v] by (simp add: e)
  moreover have "noAdj 92 116 inner"
    using unescaped_props [of x] noAdj_infix [of 92 116 u inner v] by (simp add: e)
  ultimately show ?thesis using Some by (simp add: unwrapped_def)
qed

lemma separated_props:
  fixes x :: jsstring
  defines "s \<equiv> replaceAllStr [9] (ascii '' | '') (unwrapped x)"
  shows "13 \<notin> set s \<and> 9 \<notin> set s \<and> noAdj 92 110 s \<and> noAdj 92 116 s"
proof -
  have sep: "ascii '' | '' = [32, 124, 32]" by (simp add: ascii_def)
  have "set s \<subseteq> set (unwrapped x) \<union> {32, 124}"
    unfolding s_def using set_replaceAllStr [of "[9]" "ascii '' | ''" "unwrapped x"]
    by (auto simp: sep)
  then have "13 \<notin> set s" using unwrapped_props [of x] by auto
  moreover have "9 \<notin> set s" unfolding s_def by (rule set_replaceAllStr_single) (simp add: sep)
  moreover have "noAdj 92 110 s"
    unfolding s_def sep
    using noAdj_replace_preserved [of "[32, 124, 32]" 92 110 "unwrapped x" "[9]"]
      unwrapped_props [of x] by simp
  moreover have "noAdj 92 116 s"
    unfolding s_def sep
    using noAdj_replace_preserved [of "[32, 124, 32]" 92 116 "unwrapped x" "[9]"]
      unwrapped_props [of x] by simp
  ultimately show ?thesis by simp
qed

lemma normLines_line:
  assumes "l \<in> set (normLines s)"
  shows "l \<noteq> []" and "10 \<notin> set l" and "normLine l = l" and "set l \<subseteq> insert 32 (set s)"
    and "noAdj 92 110 s \<Longrightarrow> noAdj 92 110 l" and "noAdj 92 116 s \<Longrightarrow> noAdj 92 116 l"
proof -
  from assms obtain l0 where l0: "l0 \<in> set (splitLines s)" and l: "l = normLine l0" and ne: "l \<noteq> []"
    by (auto simp: normLines_def)
  show "l \<noteq> []" by (rule ne)
  have "10 \<notin> set l0" using l0 by (rule splitLines_no_newline)
  then show "10 \<notin> set l" using set_normLine [of l0] by (auto simp: l)
  show "normLine l = l" by (simp add: l normLine_idem)
  show "set l \<subseteq> insert 32 (set s)"
    using set_normLine [of l0] splitLines_subset [OF l0] by (auto simp: l)
  have sp: "\<not> isSpace 92" "\<not> isSpace 110" "\<not> isSpace 116" by (simp_all add: isSpace_def)
  show "noAdj 92 110 l" if "noAdj 92 110 s"
  proof -
    have "noAdj 92 110 l0" using that l0 by (rule splitLines_noAdj)
    then have "noAdj 92 110 (collapseSpaces l0)"
      using noAdj_collapseSpaces [of 92 110 l0] sp by blast
    then show ?thesis unfolding l normLine_def by (rule noAdj_trim)
  qed
  show "noAdj 92 116 l" if "noAdj 92 116 s"
  proof -
    have "noAdj 92 116 l0" using that l0 by (rule splitLines_noAdj)
    then have "noAdj 92 116 (collapseSpaces l0)"
      using noAdj_collapseSpaces [of 92 116 l0] sp by blast
    then show ?thesis unfolding l normLine_def by (rule noAdj_trim)
  qed
qed

lemma normLines_joined:
  assumes "\<And>l. l \<in> set ls \<Longrightarrow> l \<noteq> [] \<and> 10 \<notin> set l \<and> normLine l = l"
  shows "normLines (joinWith [10] ls) = ls"
proof (cases "ls = []")
  case True
  then show ?thesis by (simp add: normLines_def normLine_def trim_def)
next
  case False
  have "splitLines (joinWith [10] ls) = ls"
  proof (rule splitLines_joinWith)
    show "ls \<noteq> []" by (rule False)
    show "10 \<notin> set l" if "l \<in> set ls" for l using assms [OF that] by simp
  qed
  moreover have "map normLine ls = ls" using assms by (simp add: map_idI)
  moreover have "filter (\<lambda>line. 0 < length line) ls = ls" using assms by (simp add: filter_id_conv)
  ultimately show ?thesis by (simp add: normLines_def)
qed

lemma unescaped_fixed:
  assumes "13 \<notin> set y" "9 \<notin> set y" "noAdj 92 110 y" "noAdj 92 116 y"
  shows "unescaped y = y"
proof -
  have "replaceAllStr [92, 114, 92, 110] [10] y = y" using assms(3) by (rule noAdj_absent4)
  moreover have "replaceAllStr [92, 110] [10] y = y" using assms(3) by (rule noAdj_absent2)
  moreover have "replaceAllStr [92, 116] [9] y = y" using assms(4) by (rule noAdj_absent2)
  moreover have "replaceAllStr [13, 10] [10] y = y"
    using assms(1) by (rule replaceAllStr_single_absent)
  moreover have "replaceAllStr [13] [10] y = y"
    using assms(1) by (rule replaceAllStr_single_absent)
  ultimately show ?thesis by (simp add: unescaped_def)
qed

lemma cleanOcrText_fixed:
  assumes w: "wrapMatch y = None"
    and c: "13 \<notin> set y" "9 \<notin> set y" "noAdj 92 110 y" "noAdj 92 116 y"
    and j: "y = joinWith [10] ls"
    and ls: "\<And>l. l \<in> set ls \<Longrightarrow> l \<noteq> [] \<and> 10 \<notin> set l \<and> normLine l = l"
  shows "cleanOcrText y = y"
proof -
  have u: "unescaped y = y" using c by (rule unescaped_fixed)
  then have "unwrapped y = y" using w by (simp add: unwrapped_def)
  moreover have "replaceAllStr [9] (ascii '' | '') y = y"
    using c(2) by (simp add: ascii_def replaceAllStr_single_absent)
  ultimately have "cleanOcrText y = joinWith [10] (normLines y)" by (simp add: cleanOcrText_eq)
  also have "normLines y = ls" unfolding j using ls by (rule normLines_joined)
  finally show ?thesis by (simp add: j)
qed

lemma cleanOcrText_props:
  fixes x :: jsstring
  defines "y \<equiv> cleanOcrText x"
  shows "13 \<notin> set y \<and> 9 \<notin> set y \<and> noAdj 92 110 y \<and> noAdj 92 116 y"
proof -
  define s where "s = replaceAllStr [9] (ascii '' | '') (unwrapped x)"
  have y: "y = joinWith [10] (normLines s)" by (simp add: y_def s_def cleanOcrText_eq)
  have s: "13 \<notin> set s" "9 \<notin> set s" "noAdj 92 110 s" "noAdj 92 116 s"
    using separated_props [of x] by (simp_all add: s_def)
  have sub: "set y \<subseteq> insert 10 (insert 32 (set s))"
    using set_joinWith [of 10 "normLines s"] normLines_line(4) [of _ s] by (auto simp: y)
  have "13 \<notin> set y" using sub s(1) by auto
  moreover have "9 \<notin> set y" using sub s(2) by auto
  moreover have "noAdj 92 110 y"
    unfolding y
  proof (rule noAdj_joinWith)
    fix l assume "l \<in> set (normLines s)"
    then show "noAdj 92 110 l" using s(3) by (rule normLines_line(5))
  qed simp_all
  moreover have "noAdj 92 116 y"
    unfolding y
  proof (rule noAdj_joinWith)
    fix l assume "l \<in> set (normLines s)"
    then show "noAdj 92 116 l" using s(4) by (rule normLines_line(6))
  qed simp_all
  ultimately show ?thesis by simp
qed


subsection \<open>Lengths\<close>

lemma length_collapseSpaces: "length (collapseSpaces s) \<le> length s"
proof (induction s rule: collapseSpaces.induct)
  case 1
  show ?case by simp
next
  case (2 c cs)
  show ?case
  proof (cases "isSpace c \<and> (case cs of [] \<Rightarrow> False | d # _ \<Rightarrow> isSpace d)")
    case True
    with 2(1) have "length (collapseSpaces (dropWhile isSpace cs)) \<le> length (dropWhile isSpace cs)"
      by simp
    also have "\<dots> \<le> length cs" by (rule length_dropWhile_le)
    finally show ?thesis using True by simp
  next
    case False
    with 2(2) have "length (collapseSpaces cs) \<le> length cs" by simp
    with False show ?thesis by auto
  qed
qed

lemma length_trim: "length (trim s) \<le> length s"
proof -
  have "length (dropWhile isSpace (rev (dropWhile isSpace s))) \<le> length (rev (dropWhile isSpace s))"
    by (rule length_dropWhile_le)
  also have "\<dots> \<le> length s" by (simp add: length_dropWhile_le)
  finally show ?thesis by (simp add: trim_def)
qed

lemma length_normLine: "length (normLine l) \<le> length l"
  using length_trim [of "collapseSpaces l"] length_collapseSpaces [of l]
  by (simp add: normLine_def)

lemma length_joinWith:
  "length (joinWith [c] ls) = sum_list (map length ls) + (length ls - 1)"
  by (induction "[c]" ls rule: joinWith.induct) simp_all

lemma joinWith_splitLines: "joinWith [10] (splitLines s) = s"
proof (induction s)
  case Nil
  show ?case by simp
next
  case (Cons c cs)
  obtain l ls where sp: "splitLines cs = l # ls"
    using splitLines_nonempty [of cs] by (cases "splitLines cs") auto
  show ?case
  proof (cases "c = 10")
    case True
    with Cons sp show ?thesis by simp
  next
    case False
    have "joinWith [10] ((c # l) # ls) = c # joinWith [10] (l # ls)" by (cases ls) simp_all
    with False Cons sp show ?thesis by simp
  qed
qed

lemma normLines_sum:
  "sum_list (map length (filter P (map normLine ls))) \<le> sum_list (map length ls)"
proof (induction ls)
  case Nil
  show ?case by simp
next
  case (Cons l ls)
  with length_normLine [of l] show ?case by auto
qed

lemma length_normLines: "length (joinWith [10] (normLines s)) \<le> length s"
proof -
  have "length (normLines s) \<le> length (splitLines s)"
    unfolding normLines_def using length_filter_le [of _ "map normLine (splitLines s)"] by simp
  then have "length (normLines s) - 1 \<le> length (splitLines s) - 1" by simp
  moreover have "sum_list (map length (normLines s)) \<le> sum_list (map length (splitLines s))"
    unfolding normLines_def by (rule normLines_sum)
  ultimately have "length (joinWith [10] (normLines s)) \<le> length (joinWith [10] (splitLines s))"
    by (simp add: length_joinWith)
  then show ?thesis by (simp add: joinWith_splitLines)
qed

lemma cleanOcrText_shorter:
  assumes w: "wrapMatch y = Some inner"
    and c: "13 \<notin> set y" "9 \<notin> set y" "noAdj 92 110 y" "noAdj 92 116 y"
  shows "length (cleanOcrText y) < length y"
proof -
  have u: "unescaped y = y" using c by (rule unescaped_fixed)
  then have i: "unwrapped y = inner" using w by (simp add: unwrapped_def)
  from wrapMatch_infix [OF w] obtain a b where y: "y = a @ inner @ b" and b: "b \<noteq> []" by blast
  have "9 \<notin> set inner" using c(2) by (subst (asm) y) simp
  then have "replaceAllStr [9] (ascii '' | '') inner = inner"
    by (rule replaceAllStr_single_absent)
  then have "cleanOcrText y = joinWith [10] (normLines inner)" by (simp add: cleanOcrText_eq i)
  then have "length (cleanOcrText y) \<le> length inner" by (simp add: length_normLines)
  also have "\<dots> < length y" using b by (subst y) simp
  finally show ?thesis .
qed

text \<open>On sample texts the wrapper function agrees with the pattern run by the backtracking
  matcher.\<close>

lemma wrapMatch_agrees:
  "list_all (\<lambda>s. map_option (\<lambda>(i, st). captureText 1 st) (rx_exec wrapRx s) = wrapMatch s)
     [quotedTwice, [34, 97, 34], [97], [], [32, 34, 97, 32, 34, 98, 34, 32, 44, 10],
      [34, 97, 34, 44, 44], [34, 10, 34, 98], cleanOcrText sampleText]"
  by code_simp

subsection \<open>Idempotence\<close>

text \<open>Claim C7, amended. A second pass of the normalizer leaves a normalized text unchanged
  exactly when that text is not itself wrapped in a pair of double quotes (with an optional
  comma after the closing quote): the normalizer removes one such pair per pass. When the
  normalized text is wrapped in this way, the second pass returns a strictly shorter text.\<close>

theorem cleanOcrText_idempotent_unless_wrapped:
  "(cleanOcrText (cleanOcrText x) = cleanOcrText x \<longleftrightarrow> wrapMatch (cleanOcrText x) = None)
   \<and> (wrapMatch (cleanOcrText x) \<noteq> None
        \<longrightarrow> length (cleanOcrText (cleanOcrText x)) < length (cleanOcrText x))"
proof -
  define s where "s = replaceAllStr [9] (ascii '' | '') (unwrapped x)"
  define y where "y = cleanOcrText x"
  have j: "y = joinWith [10] (normLines s)" by (simp add: y_def s_def cleanOcrText_eq)
  have c: "13 \<notin> set y" "9 \<notin> set y" "noAdj 92 110 y" "noAdj 92 116 y"
    using cleanOcrText_props [of x] by (simp_all add: y_def)
  have ls: "l \<noteq> [] \<and> 10 \<notin> set l \<and> normLine l = l" if "l \<in> set (normLines s)" for l
    using normLines_line(1-3) [OF that] by simp
  have "(cleanOcrText y = y \<longleftrightarrow> wrapMatch y = None)
      \<and> (wrapMatch y \<noteq> None \<longrightarrow> length (cleanOcrText y) < length y)"
  proof (cases "wrapMatch y")
    case None
    then have "cleanOcrText y = y" using c j ls by (rule cleanOcrText_fixed)
    with None show ?thesis by simp
  next
    case (Some inner)
    then have shorter: "length (cleanOcrText y) < length y" using c by (rule cleanOcrText_shorter)
    then have "cleanOcrText y \<noteq> y" by auto
    with Some shorter show ?thesis by simp
  qed
  then show ?thesis unfolding y_def .
qed

theorem cleanOcrText_idempotent_unless_wrapped_witness:
  "cleanOcrText sampleText = ascii ''a | b'' @ [10] @ ascii ''c d'' @ [10] @ ascii ''e''
   \<and> wrapMatch (cleanOcrText sampleText) = None
   \<and> cleanOcrText (cleanOcrText sampleText) = cleanOcrText sampleText
   \<and> cleanOcrText quotedComma = [34, 34] @ ascii ''a b'' @ [34, 34]
   \<and> wrapMatch (cleanOcrText quotedComma) = Some ([34] @ ascii ''a b'' @ [34])
   \<and> length (cleanOcrText (cleanOcrText quotedComma)) < length (cleanOcrText quotedComma)"
proof -
  have v: "cleanOcrText sampleText = ascii ''a | b'' @ [10] @ ascii ''c d'' @ [10] @ ascii ''e''"
    by code_simp
  have w: "wrapMatch (cleanOcrText sampleText) = None" by code_simp
  have v': "cleanOcrText quotedComma = [34, 34] @ ascii ''a b'' @ [34, 34]" by code_simp
  have w': "wrapMatch (cleanOcrText quotedComma) = Some ([34] @ ascii ''a b'' @ [34])" by code_simp
  from w cleanOcrText_idempotent_unless_wrapped [of sampleText]
  have a: "cleanOcrText (cleanOcrText sampleText) = cleanOcrText sampleText" by (simp only:)
  from w' cleanOcrText_idempotent_unless_wrapped [of quotedComma]
  have b: "length (cleanOcrText (cleanOcrText quotedComma)) < length (cleanOcrText quotedComma)"
    by simp
  from v w a v' w' b show ?thesis by (simp only: simp_thms)
qed

text \<open>Claim C7 as stated fails for a text in two pairs of quotes: the first pass removes the
  outer pair, the second pass the inner one.\<close>

theorem cleanOcrText_not_idempotent_counterexample:
  "cleanOcrText quotedTwice = [34, 97, 34]
   \<and> cleanOcrText (cleanOcrText quotedTwice) = [97]
   \<and> cleanOcrText (cleanOcrText quotedTwice) \<noteq> cleanOcrText quotedTwice"
proof -
  have a: "cleanOcrText quotedTwice = [34, 97, 34]" by code_simp
  have b: "cleanOcrText [34, 97, 34] = [97]" by code_simp
  show ?thesis by (simp add: a b)
qed


section \<open>Columns of the kept rows\<close>

subsection \<open>The bar patterns\<close>

declare rmatch.simps [simp del]

lemma star_ws_step:
  "rmatch (Star ws) st =
     (case rest st of
        [] \<Rightarrow> [st]
      | c # cs \<Rightarrow> if isSpace c
                  then rmatch (Star ws) (st\<lparr>consumed := c # consumed st, rest := cs\<rparr>) @ [st]
                  else [st])"
  by (cases "rest st") (simp_all add: ws_def rmatch.simps)

lemma seq_star_ws_step:
  "rmatch (Seq (Star ws) X) st =
     (case rest st of
        [] \<Rightarrow> rmatch X st
      | c # cs \<Rightarrow> if isSpace c
                  then rmatch (Seq (Star ws) X) (st\<lparr>consumed := c # consumed st, rest := cs\<rparr>)
                       @ rmatch X st
                  else rmatch X st)"
proof -
  have seq: "rmatch (Seq (Star ws) X) s = concat (map (rmatch X) (rmatch (Star ws) s))" for s
    by (simp only: rmatch.simps)
  show ?thesis
    unfolding seq by (subst star_ws_step) (simp split: list.splits)
qed

lemma star_ws_hd:
  "rmatch (Star ws) st \<noteq> [] \<and> rest (hd (rmatch (Star ws) st)) = dropWhile isSpace (rest st)"
proof (induction s \<equiv> "rest st" arbitrary: st)
  case Nil
  then show ?case by (subst star_ws_step, subst (2) star_ws_step) (simp add: Nil [symmetric])
next
  case (Cons c cs)
  define st' where "st' = st\<lparr>consumed := c # consumed st, rest := cs\<rparr>"
  have r: "rest st = c # cs" using Cons(2) by simp
  show ?case
  proof (cases "isSpace c")
    case True
    have ih: "rmatch (Star ws) st' \<noteq> [] \<and> rest (hd (rmatch (Star ws) st')) = dropWhile isSpace (rest st')"
      by (rule Cons(1)) (simp add: st'_def)
    have eq: "rmatch (Star ws) st = rmatch (Star ws) st' @ [st]"
      by (subst star_ws_step) (simp add: r True st'_def)
    show ?thesis unfolding eq using ih True by (simp add: r st'_def)
  next
    case False
    have eq: "rmatch (Star ws) st = [st]" by (subst star_ws_step) (simp add: r False)
    show ?thesis unfolding eq using False by (simp add: r)
  qed
qed

lemma star_ws_all:
  "x \<in> set (rmatch (Star ws) st) \<Longrightarrow> \<exists>w. rest st = w @ rest x \<and> list_all isSpace w"
proof (induction s \<equiv> "rest st" arbitrary: st)
  case Nil
  have "rmatch (Star ws) st = [st]" by (subst star_ws_step) (simp add: Nil(1) [symmetric])
  with Nil(2) show ?case by simp
next
  case (Cons c cs)
  define st' where "st' = st\<lparr>consumed := c # consumed st, rest := cs\<rparr>"
  have r: "rest st = c # cs" using Cons(2) by simp
  show ?case
  proof (cases "isSpace c")
    case True
    have eq: "rmatch (Star ws) st = rmatch (Star ws) st' @ [st]"
      by (subst star_ws_step) (simp add: r True st'_def)
    from Cons(3) have "x \<in> set (rmatch (Star ws) st') \<or> x = st" by (auto simp: eq)
    then show ?thesis
    proof
      assume "x \<in> set (rmatch (Star ws) st')"
      with Cons(1) [of st'] obtain w where "rest st' = w @ rest x" and "list_all isSpace w"
        by (auto simp: st'_def)
      then have "rest st = (c # w) @ rest x \<and> list_all isSpace (c # w)"
        using True by (simp add: r st'_def)
      then show ?thesis by blast
    next
      assume "x = st"
      then have "rest st = [] @ rest x \<and> list_all isSpace []" by simp
      then show ?thesis by blast
    qed
  next
    case False
    have "rmatch (Star ws) st = [st]" by (subst star_ws_step) (simp add: r False)
    with Cons(3) have "rest st = [] @ rest x \<and> list_all isSpace []" by simp
    then show ?thesis by blast
  qed
qed

lemma isSpace_bar: "\<not> isSpace 124"
  by (simp add: isSpace_def)

lemma barRx_eq: "barRx = Seq (Star ws) (Seq (lit 124) (Star ws))"
  by (simp add: barRx_def)

lemma trailingBarRx_eq: "trailingBarRx = Seq (Star ws) (Seq (lit 124) (Seq (Star ws) Eol))"
  by (simp add: trailingBarRx_def)

lemma lit_seq:
  "rmatch (Seq (lit a) X) st =
     (case rest st of [] \<Rightarrow> []
      | c # cs \<Rightarrow> if c = a then rmatch X (st\<lparr>consumed := c # consumed st, rest := cs\<rparr>) else [])"
  by (cases "rest st") (simp_all add: lit_def rmatch.simps)

lemma bar_none:
  "(\<And>r. dropWhile isSpace (rest st) \<noteq> 124 # r) \<Longrightarrow> rmatch (Seq (Star ws) (Seq (lit 124) X)) st = []"
proof (induction s \<equiv> "rest st" arbitrary: st)
  case Nil
  show ?case by (subst seq_star_ws_step) (simp add: Nil(1) [symmetric] lit_seq)
next
  case (Cons c cs)
  define st' where "st' = st\<lparr>consumed := c # consumed st, rest := cs\<rparr>"
  have r: "rest st = c # cs" using Cons(2) by simp
  show ?case
  proof (cases "isSpace c")
    case True
    then have c: "c \<noteq> 124" using isSpace_bar by auto
    have "rmatch (Seq (Star ws) (Seq (lit 124) X)) st' = []"
    proof (rule Cons(1))
      show "cs = rest st'" by (simp add: st'_def)
      show "dropWhile isSpace (rest st') \<noteq> 124 # r" for r
        using Cons(3) [of r] True by (simp add: r st'_def)
    qed
    then show ?thesis
      by (subst seq_star_ws_step) (simp add: r True c lit_seq st'_def)
  next
    case False
    with Cons(3) [of cs] have "c \<noteq> 124" by (simp add: r)
    then show ?thesis by (subst seq_star_ws_step) (simp add: r False lit_seq)
  qed
qed

lemma bar_some:
  "dropWhile isSpace (rest st) = 124 # r \<Longrightarrow>
   \<exists>st'. rest st' = r
     \<and> rmatch (Seq (Star ws) (Seq (lit 124) X)) st = rmatch X st'"
proof (induction s \<equiv> "rest st" arbitrary: st)
  case Nil
  then show ?case by simp
next
  case (Cons c cs)
  define st1 where "st1 = st\<lparr>consumed := c # consumed st, rest := cs\<rparr>"
  have r: "rest st = c # cs" using Cons(2) by simp
  show ?case
  proof (cases "isSpace c")
    case True
    then have c: "c \<noteq> 124" using isSpace_bar by auto
    have "\<exists>st'. rest st' = r
        \<and> rmatch (Seq (Star ws) (Seq (lit 124) X)) st1 = rmatch X st'"
    proof (rule Cons(1))
      show "cs = rest st1" by (simp add: st1_def)
      show "dropWhile isSpace (rest st1) = 124 # r"
        using Cons(3) True by (simp add: r st1_def)
    qed
    moreover have "rmatch (Seq (Star ws) (Seq (lit 124) X)) st
        = rmatch (Seq (Star ws) (Seq (lit 124) X)) st1"
      by (subst seq_star_ws_step) (simp add: r True c lit_seq st1_def)
    ultimately show ?thesis by simp
  next
    case False
    with Cons(3) have c: "c = 124" and cs: "cs = r" by (simp_all add: r)
    have "rmatch (Seq (Star ws) (Seq (lit 124) X)) st = rmatch X st1"
      by (subst seq_star_ws_step) (simp add: r isSpace_bar lit_seq c st1_def)
    moreover have "rest st1 = r" by (simp add: st1_def cs)
    ultimately show ?thesis by blast
  qed
qed

lemma matchHere_bar_none:
  "(\<And>r. dropWhile isSpace s \<noteq> 124 # r) \<Longrightarrow> matchHere barRx pre s = None"
  using bar_none [of "\<lparr>consumed = pre, rest = s, caps = []\<rparr>" "Star ws"]
  by (simp add: matchHere_def barRx_eq)

lemma matchHere_bar_some:
  assumes "dropWhile isSpace s = 124 # r"
  shows "\<exists>st. matchHere barRx pre s = Some st \<and> rest st = dropWhile isSpace r"
proof -
  from bar_some [of "\<lparr>consumed = pre, rest = s, caps = []\<rparr>" r "Star ws"] assms
  obtain st' where st': "rest st' = r"
    and eq: "rmatch barRx \<lparr>consumed = pre, rest = s, caps = []\<rparr> = rmatch (Star ws) st'"
    by (auto simp: barRx_eq)
  from star_ws_hd [of st'] obtain x xs where "rmatch (Star ws) st' = x # xs"
    and "rest x = dropWhile isSpace r"
    by (cases "rmatch (Star ws) st'") (auto simp: st')
  then show ?thesis by (simp add: matchHere_def eq)
qed

lemma matchHere_trailing_none:
  assumes "s = [] \<or> (\<not> isSpace (last s) \<and> last s \<noteq> 124)"
  shows "matchHere trailingBarRx pre s = None"
proof (cases "\<exists>r. dropWhile isSpace s = 124 # r")
  case False
  then show ?thesis
    using bar_none [of "\<lparr>consumed = pre, rest = s, caps = []\<rparr>" "Seq (Star ws) Eol"]
    by (simp add: matchHere_def trailingBarRx_eq)
next
  case True
  then obtain r where d: "dropWhile isSpace s = 124 # r" ..
  then have s: "s = takeWhile isSpace s @ 124 # r" by (metis takeWhile_dropWhile_id)
  then have ne: "s \<noteq> []" by auto
  from s have l: "last s = last (124 # r)" by (metis last_appendR list.distinct(1))
  have notall: "\<not> list_all isSpace r"
  proof
    assume a: "list_all isSpace r"
    show False
    proof (cases "r = []")
      case True
      with l assms ne show False by simp
    next
      case False
      then have "last r \<in> set r" by simp
      with a have "isSpace (last r)" by (simp add: list_all_iff)
      with l False assms ne show False by simp
    qed
  qed
  from bar_some [of "\<lparr>consumed = pre, rest = s, caps = []\<rparr>" r "Seq (Star ws) Eol"] d
  obtain st' where st': "rest st' = r"
    and eq: "rmatch trailingBarRx \<lparr>consumed = pre, rest = s, caps = []\<rparr>
               = rmatch (Seq (Star ws) Eol) st'"
    by (auto simp: trailingBarRx_eq)
  have "rmatch (Seq (Star ws) Eol) st' = []"
  proof (rule ccontr)
    assume "rmatch (Seq (Star ws) Eol) st' \<noteq> []"
    then obtain y where "y \<in> set (rmatch (Seq (Star ws) Eol) st')"
      by (cases "rmatch (Seq (Star ws) Eol) st'") auto
    then obtain x where x: "x \<in> set (rmatch (Star ws) st')" and "y \<in> set (rmatch Eol x)"
      by (auto simp: rmatch.simps(3))
    then have "rest x = []" by (auto simp: rmatch.simps(9) split: if_splits)
    with star_ws_all [OF x] have "list_all isSpace r" by (auto simp: st')
    with notall show False ..
  qed
  then show ?thesis by (simp add: matchHere_def eq)
qed

lemma searchFrom_trailing_none:
  "s = [] \<or> (\<not> isSpace (last s) \<and> last s \<noteq> 124) \<Longrightarrow> searchFrom trailingBarRx pre s = None"
proof (induction s arbitrary: pre)
  case Nil
  show ?case using matchHere_trailing_none [of "[]"] by simp
next
  case (Cons c cs)
  have here: "matchHere trailingBarRx pre (c # cs) = None"
    using Cons.prems by (rule matchHere_trailing_none)
  have "cs = [] \<or> (\<not> isSpace (last cs) \<and> last cs \<noteq> 124)"
    using Cons.prems by (cases "cs = []") simp_all
  then have "searchFrom trailingBarRx (c # pre) cs = None" by (rule Cons.IH)
  with here show ?case by simp
qed

declare rmatch.simps [simp]


subsection \<open>Splitting a line at its bars\<close>

lemma dropWhile_bar_free:
  "124 \<notin> set u \<Longrightarrow> dropWhile isSpace u \<noteq> 124 # r"
proof
  assume u: "124 \<notin> set u" and d: "dropWhile isSpace u = 124 # r"
  have "124 \<in> set (dropWhile isSpace u)" by (simp add: d)
  then have "124 \<in> set u" by (rule set_dropWhileD)
  with u show False ..
qed

lemma dropWhile_cell_prefix:
  assumes "124 \<notin> set u" and "u \<noteq> []" and "\<not> isSpace (last u)"
  shows "dropWhile isSpace (u @ w) \<noteq> 124 # r"
proof
  assume d: "dropWhile isSpace (u @ w) = 124 # r"
  have "last u \<in> set u" using assms(2) by simp
  with assms(3) have "dropWhile isSpace (u @ w) = dropWhile isSpace u @ w"
    by (intro dropWhile_append1) auto
  moreover have "dropWhile isSpace u \<noteq> []"
    using assms(2,3) \<open>last u \<in> set u\<close> by (auto simp: dropWhile_eq_Nil_conv)
  ultimately have "dropWhile isSpace u = 124 # tl (dropWhile isSpace u)"
    using d by (cases "dropWhile isSpace u") auto
  with dropWhile_bar_free [OF assms(1)] show False by blast
qed

lemma splitLoop_bar_free:
  "124 \<notin> set u \<Longrightarrow> splitLoop barRx pre piece u = [rev piece @ u]"
proof (induction u arbitrary: pre piece)
  case Nil
  show ?case by simp
next
  case (Cons c u)
  have "matchHere barRx pre (c # u) = None"
    using dropWhile_bar_free [OF Cons.prems] by (intro matchHere_bar_none)
  moreover have "splitLoop barRx (c # pre) (c # piece) u = [rev (c # piece) @ u]"
    using Cons.prems by (intro Cons.IH) simp
  ultimately show ?case by simp
qed

lemma splitLoop_cell:
  assumes "124 \<notin> set u" and "u = [] \<or> \<not> isSpace (last u)"
    and "v \<noteq> []" and "\<not> isSpace (hd v)"
  shows "\<exists>pre'. splitLoop barRx pre piece (u @ [32, 124, 32] @ v)
           = (rev piece @ u) # splitLoop barRx pre' [] v"
  using assms(1,2)
proof (induction u arbitrary: pre piece)
  case Nil
  have sp: "isSpace 32" by (simp add: isSpace_def)
  have "dropWhile isSpace (32 # 124 # 32 # v) = 124 # 32 # v"
    using sp isSpace_bar by simp
  from matchHere_bar_some [OF this, of pre]
  obtain st where m: "matchHere barRx pre (32 # 124 # 32 # v) = Some st"
    and "rest st = dropWhile isSpace (32 # v)" by blast
  then have r: "rest st = v" using sp assms(3,4) by (cases v) simp_all
  have "splitLoop barRx pre piece ([] @ [32, 124, 32] @ v)
      = (rev piece @ []) # splitLoop barRx (32 # 124 # 32 # pre) [] v"
    by (simp add: m r)
  then show ?case by (rule exI)
next
  case (Cons c u)
  have "dropWhile isSpace ((c # u) @ [32, 124, 32] @ v) \<noteq> 124 # r" for r
    using Cons.prems by (intro dropWhile_cell_prefix) simp_all
  then have "matchHere barRx pre (c # u @ [32, 124, 32] @ v) = None"
    by (intro matchHere_bar_none) simp
  then have step: "splitLoop barRx pre piece ((c # u) @ [32, 124, 32] @ v)
      = splitLoop barRx (c # pre) (c # piece) (u @ [32, 124, 32] @ v)" by simp
  have "\<exists>pre'. splitLoop barRx (c # pre) (c # piece) (u @ [32, 124, 32] @ v)
           = (rev (c # piece) @ u) # splitLoop barRx pre' [] v"
  proof (rule Cons.IH)
    show "124 \<notin> set u" using Cons.prems(1) by simp
    show "u = [] \<or> \<not> isSpace (last u)" using Cons.prems(2) by (cases "u = []") simp_all
  qed
  then show ?case unfolding step by simp
qed

lemma isCell_hd_last:
  "cs \<noteq> [] \<Longrightarrow> list_all isCell cs \<Longrightarrow>
   joinWith [32, 124, 32] cs \<noteq> []
   \<and> hd (joinWith [32, 124, 32] cs) = hd (hd cs)
   \<and> last (joinWith [32, 124, 32] cs) = last (last cs)"
proof (induction "[32 :: int, 124, 32]" cs rule: joinWith.induct)
  case 1
  then show ?case by simp
next
  case (2 x)
  then show ?case by (simp add: isCell_def)
next
  case (3 x y ys)
  then have "joinWith [32, 124, 32] (y # ys) \<noteq> []"
    and "last (joinWith [32, 124, 32] (y # ys)) = last (last (y # ys))" by simp_all
  moreover have "x \<noteq> []" using 3(3) by (simp add: isCell_def)
  ultimately show ?case by simp
qed

lemma splitLoop_cells:
  "cs \<noteq> [] \<Longrightarrow> list_all isCell cs \<Longrightarrow> splitLoop barRx pre [] (joinWith [32, 124, 32] cs) = cs"
proof (induction "[32 :: int, 124, 32]" cs arbitrary: pre rule: joinWith.induct)
  case 1
  then show ?case by simp
next
  case (2 x)
  then have "124 \<notin> set x" by (simp add: isCell_def)
  then show ?case by (simp add: splitLoop_bar_free)
next
  case (3 x y ys)
  define v where "v = joinWith [32, 124, 32] (y # ys)"
  have cells: "list_all isCell (y # ys)" using 3(3) by simp
  from isCell_hd_last [OF _ cells] have v: "v \<noteq> []" and "hd v = hd y" by (simp_all add: v_def)
  moreover have "\<not> isSpace (hd y)" using cells by (simp add: isCell_def)
  ultimately have hv: "\<not> isSpace (hd v)" by simp
  have x: "124 \<notin> set x" "x = [] \<or> \<not> isSpace (last x)" using 3(3) by (simp_all add: isCell_def)
  from splitLoop_cell [OF x v hv, of pre "[]"]
  obtain pre' where "splitLoop barRx pre [] (x @ [32, 124, 32] @ v) = x # splitLoop barRx pre' [] v"
    by auto
  moreover have "splitLoop barRx pre' [] v = y # ys"
    unfolding v_def using cells by (intro 3(1)) simp_all
  ultimately show ?case by (simp add: v_def)
qed

lemma trim_cell: "isCell t \<Longrightarrow> trim t = t"
  by (intro trim_fixed) (simp add: isCell_def)

lemma sep_eq: "ascii '' | '' = [32, 124, 32]"
  by (simp add: ascii_def)

text \<open>Joining cells and splitting the result gives the cells back.\<close>

lemma splitToCols_joinWith:
  assumes "cs \<noteq> []" and "list_all isCell cs"
  shows "trim (joinWith (ascii '' | '') cs) = joinWith (ascii '' | '') cs"
    and "joinWith (ascii '' | '') cs \<noteq> []"
    and "splitToCols (joinWith (ascii '' | '') cs) = cs"
proof -
  define s where "s = joinWith [32, 124, 32] cs"
  from isCell_hd_last [OF assms] have ne: "s \<noteq> []" and h: "hd s = hd (hd cs)"
    and l: "last s = last (last cs)" by (simp_all add: s_def)
  have "isCell (hd cs)" "isCell (last cs)" using assms by (simp_all add: list_all_iff)
  then have hs: "\<not> isSpace (hd s)" and ls: "\<not> isSpace (last s)"
    and lne: "last cs \<noteq> []" and lbar: "124 \<notin> set (last cs)"
    using h l by (auto simp: isCell_def)
  from lne have "last (last cs) \<in> set (last cs)" by (rule last_in_set)
  with lbar have lb: "last s \<noteq> 124" unfolding l by auto
  show "trim (joinWith (ascii '' | '') cs) = joinWith (ascii '' | '') cs"
    unfolding sep_eq s_def [symmetric] using hs ls by (intro trim_fixed) simp
  show "joinWith (ascii '' | '') cs \<noteq> []" unfolding sep_eq s_def [symmetric] by (rule ne)
  have "rx_exec trailingBarRx s = None"
    unfolding rx_exec_def using ls lb by (intro searchFrom_trailing_none) simp
  then have "replaceFirst trailingBarRx [] s = s" by (simp add: replaceFirst_def)
  moreover have "rx_split barRx s = cs"
    using ne splitLoop_cells [OF assms, of "[]"] by (simp add: rx_split_def s_def)
  moreover have "map trim cs = cs" using assms(2) by (simp add: map_idI list_all_iff trim_cell)
  moreover have "filter (\<lambda>s. s \<noteq> []) cs = cs"
    using assms(2) by (simp add: filter_id_conv list_all_iff isCell_def)
  ultimately show "splitToCols (joinWith (ascii '' | '') cs) = cs"
    unfolding sep_eq s_def [symmetric] by (simp add: splitToCols_def)
qed

text \<open>No piece of a split at the bars holds a bar.\<close>

lemma splitLoop_pieces:
  "124 \<notin> set piece \<Longrightarrow> x \<in> set (splitLoop barRx pre piece s) \<Longrightarrow> 124 \<notin> set x"
proof (induction s arbitrary: pre piece rule: length_induct)
  case (1 s)
  from 1(1) have ih: "length ys < length s \<Longrightarrow> 124 \<notin> set pc
      \<Longrightarrow> x \<in> set (splitLoop barRx pr pc ys) \<Longrightarrow> 124 \<notin> set x" for ys pc pr
    by blast
  show ?case
  proof (cases s)
    case Nil
    with 1(2,3) show ?thesis by simp
  next
    case (Cons c cs)
    show ?thesis
    proof (cases "\<exists>r. dropWhile isSpace (c # cs) = 124 # r")
      case False
      then have m: "matchHere barRx pre (c # cs) = None" by (intro matchHere_bar_none) simp
      from False have "c \<noteq> 124" using isSpace_bar by auto
      then have p: "124 \<notin> set (c # piece)" using 1(2) by simp
      from 1(3) have "x \<in> set (splitLoop barRx (c # pre) (c # piece) cs)" by (simp add: Cons m)
      with ih [of cs "c # piece" "c # pre"] p show ?thesis by (simp add: Cons)
    next
      case True
      then obtain r where d: "dropWhile isSpace (c # cs) = 124 # r" ..
      from matchHere_bar_some [OF d, of pre] obtain st
        where m: "matchHere barRx pre (c # cs) = Some st" and r: "rest st = dropWhile isSpace r"
        by blast
      have "length (124 # r) \<le> length (c # cs)"
        using length_dropWhile_le [of isSpace "c # cs"] by (simp only: d)
      moreover have "length (rest st) \<le> length r" unfolding r by (rule length_dropWhile_le)
      ultimately have lt: "length (rest st) < Suc (length cs)" by simp
      define k where "k = Suc (length cs) - length (rest st)"
      have k: "0 < k" using lt by (simp add: k_def)
      have "splitLoop barRx pre piece (c # cs)
          = rev piece # splitLoop barRx (rev (take k (c # cs)) @ pre) [] (drop k (c # cs))"
        using k by (subst splitLoop.simps) (simp add: m Let_def k_def [symmetric])
      with 1(3) have "x = rev piece
          \<or> x \<in> set (splitLoop barRx (rev (take k (c # cs)) @ pre) [] (drop k (c # cs)))"
        by (simp add: Cons)
      moreover have "length (drop k (c # cs)) < length s" using k by (simp add: Cons)
      ultimately show ?thesis
        using ih [of "drop k (c # cs)" "[]" "rev (take k (c # cs)) @ pre"] 1(2) by auto
    qed
  qed
qed

lemma splitToCols_cells: "c \<in> set (splitToCols line) \<Longrightarrow> isCell c"
proof -
  assume "c \<in> set (splitToCols line)"
  then obtain x where x: "x \<in> set (rx_split barRx (replaceFirst trailingBarRx [] line))"
    and c: "c = trim x" and ne: "c \<noteq> []" by (auto simp: splitToCols_def)
  have "124 \<notin> set x"
    using x splitLoop_pieces [of "[]" x "[]"]
    by (auto simp: rx_split_def split: if_splits)
  then have "124 \<notin> set c" using set_trim [of x] by (auto simp: c)
  moreover have "\<not> isSpace (hd c)" "\<not> isSpace (last c)" using trim_ends [of x] ne by (simp_all add: c)
  ultimately show ?thesis using ne by (simp add: isCell_def)
qed

lemma survivingCols_cells: "c \<in> set (survivingCols line) \<Longrightarrow> isCell c"
proof -
  define f where "f = filter (\<lambda>col. \<not> hitsRule col) (splitToCols line)"
  assume "c \<in> set (survivingCols line)"
  then have "c \<in> set f \<or> c \<in> set (tl f)"
    by (simp add: survivingCols_def Let_def f_def [symmetric] split: if_splits)
  moreover have "set (tl f) \<subseteq> set f" by (cases f) auto
  ultimately have "c \<in> set f" by auto
  then have "c \<in> set (splitToCols line)" by (simp add: f_def)
  then show ?thesis by (rule splitToCols_cells)
qed

lemma queue_cells: "c \<in> set (numericQueue (cleanLoop rs)) \<Longrightarrow> isCell c"
proof -
  assume c: "c \<in> set (numericQueue (cleanLoop rs))"
  from cleanLoop_tokens [of rs] obtain colsList where
    "mset (concat colsList) + mset (numericQueue (cleanLoop rs))
       \<subseteq># mset (concat (map survivingCols rs))" by blast
  then have "mset (numericQueue (cleanLoop rs)) \<subseteq># mset (concat (map survivingCols rs))"
    by (rule subset_mset.order_trans [rotated]) simp
  then have "set (numericQueue (cleanLoop rs)) \<subseteq> set (concat (map survivingCols rs))"
    by (metis set_mset_mono set_mset_mset)
  with c obtain r where "c \<in> set (survivingCols r)" by auto
  then show ?thesis by (rule survivingCols_cells)
qed


subsection \<open>Rows that are kept without a swap\<close>

lemma consumeQueue_appended:
  assumes "q = [] \<or> nEffective nc < threshold first"
  shows "fst (consumeQueue nc q first) = nc @ take (threshold first - nEffective nc) q
         \<or> nc = []"
proof (cases "q = [] \<or> nc = []")
  case True
  then show ?thesis by (auto simp: consumeQueue_def)
next
  case False
  with assms have lt: "nEffective nc < threshold first" by simp
  have "take (min (length q) (threshold first - nEffective nc)) q
      = take (threshold first - nEffective nc) q"
    by (simp add: min_def)
  with False lt show ?thesis
    by (simp add: consumeQueue_def Let_def split_def appendLoop_fst)
qed

lemma cleanRow_appended:
  assumes ne: "survivingCols line \<noteq> []"
    and mixed: "\<not> list_all isNumericToken (survivingCols line)"
    and noswap: "numericQueue st = []
                 \<or> nEffective (survivingCols line) < threshold (firstQueueFill st)"
    and cells: "\<And>c. c \<in> set (numericQueue st) \<Longrightarrow> isCell c"
  defines "cols' \<equiv> survivingCols line
      @ take (threshold (firstQueueFill st) - nEffective (survivingCols line)) (numericQueue st)"
  shows "kept (cleanRow st (r, line)) = kept st @ [trim (joinWith (ascii '' | '') cols')]"
    and "splitToCols (trim (joinWith (ascii '' | '') cols')) = cols'"
    and "\<not> list_all isNumericToken (splitToCols (trim (joinWith (ascii '' | '') cols')))"
proof -
  obtain c1 q1 f1 where
    cq: "consumeQueue (survivingCols line) (numericQueue st) (firstQueueFill st) = (c1, q1, f1)"
    by (cases "consumeQueue (survivingCols line) (numericQueue st) (firstQueueFill st)") auto
  with consumeQueue_appended [OF noswap] ne have c1: "c1 = cols'" by (simp add: cols'_def)
  have m: "\<not> (survivingCols line \<noteq> [] \<and> list_all isNumericToken (survivingCols line))"
    using mixed by simp
  have "set cols' \<subseteq> set (survivingCols line) \<union> set (numericQueue st)"
    unfolding cols'_def using set_take_subset [of _ "numericQueue st"] by auto
  then have all: "list_all isCell cols'"
    using cells survivingCols_cells [of _ line] by (auto simp: list_all_iff)
  have cne: "cols' \<noteq> []" using ne by (simp add: cols'_def)
  note j = splitToCols_joinWith [OF cne all]
  show "kept (cleanRow st (r, line)) = kept st @ [trim (joinWith (ascii '' | '') cols')]"
    using cleanRow_other(2) [OF m cq, of r] j(1,2) by (simp add: c1)
  show s: "splitToCols (trim (joinWith (ascii '' | '') cols')) = cols'"
    using j(1,3) by simp
  have "\<not> list_all isNumericToken cols'" using mixed by (simp add: cols'_def)
  then show "\<not> list_all isNumericToken (splitToCols (trim (joinWith (ascii '' | '') cols')))"
    unfolding s .
qed

lemma cleanRow_empty:
  assumes "survivingCols line = []"
  shows "kept (cleanRow st (r, line)) = kept st"
proof -
  have m: "\<not> (survivingCols line \<noteq> [] \<and> list_all isNumericToken (survivingCols line))"
    using assms by simp
  have cq: "consumeQueue (survivingCols line) (numericQueue st) (firstQueueFill st)
      = ([], numericQueue st, firstQueueFill st)"
    using assms by (simp add: consumeQueue_def)
  show ?thesis using cleanRow_other(2) [OF m cq, of r] by (simp add: trim_def)
qed

text \<open>
  Claim C2, amended. A line whose surviving columns are all numeric is not emitted at its
  position: its columns go to the front of the queue. A line without a surviving column is
  not emitted either. A line with a surviving column that is not numeric, met when the queue
  is empty or when its effective column count is below the threshold, is emitted: the kept
  row is the join of its own surviving columns followed by the first queued tokens (as many
  as the threshold exceeds the effective count), splitting the kept row gives exactly these
  columns back, and so the kept row has a column that is not numeric. Nothing of this kind
  holds for the trailing-column swap, which can leave a kept row all numeric.
\<close>

theorem sanitizer_numeric_rows:
  "(survivingCols line \<noteq> [] \<and> list_all isNumericToken (survivingCols line)
      \<longrightarrow> kept (cleanLoop (rs @ [line])) = kept (cleanLoop rs)
          \<and> numericQueue (cleanLoop (rs @ [line]))
              = survivingCols line @ numericQueue (cleanLoop rs))
   \<and> (survivingCols line = [] \<longrightarrow> kept (cleanLoop (rs @ [line])) = kept (cleanLoop rs))
   \<and> (survivingCols line \<noteq> [] \<and> \<not> list_all isNumericToken (survivingCols line)
       \<and> (numericQueue (cleanLoop rs) = []
            \<or> nEffective (survivingCols line) < threshold (firstQueueFill (cleanLoop rs)))
      \<longrightarrow> (let cols' = survivingCols line
                    @ take (threshold (firstQueueFill (cleanLoop rs))
                              - nEffective (survivingCols line))
                        (numericQueue (cleanLoop rs));
                row = trim (joinWith (ascii '' | '') cols')
            in kept (cleanLoop (rs @ [line])) = kept (cleanLoop rs) @ [row]
               \<and> splitToCols row = cols'
               \<and> \<not> list_all isNumericToken (splitToCols row)))"
proof (intro conjI impI)
  assume "survivingCols line \<noteq> [] \<and> list_all isNumericToken (survivingCols line)"
  then have a: "survivingCols line \<noteq> []" "list_all isNumericToken (survivingCols line)"
    by simp_all
  show "kept (cleanLoop (rs @ [line])) = kept (cleanLoop rs)"
    unfolding cleanLoop_snoc using a by (rule cleanRow_numeric(1))
  show "numericQueue (cleanLoop (rs @ [line]))
      = survivingCols line @ numericQueue (cleanLoop rs)"
    unfolding cleanLoop_snoc using a by (rule cleanRow_numeric(2))
next
  assume "survivingCols line = []"
  then show "kept (cleanLoop (rs @ [line])) = kept (cleanLoop rs)"
    unfolding cleanLoop_snoc by (rule cleanRow_empty)
next
  assume a: "survivingCols line \<noteq> [] \<and> \<not> list_all isNumericToken (survivingCols line)
       \<and> (numericQueue (cleanLoop rs) = []
            \<or> nEffective (survivingCols line) < threshold (firstQueueFill (cleanLoop rs)))"
  have cells: "isCell c" if "c \<in> set (numericQueue (cleanLoop rs))" for c
    using that by (rule queue_cells)
  from a have ne: "survivingCols line \<noteq> []"
    and mixed: "\<not> list_all isNumericToken (survivingCols line)"
    and noswap: "numericQueue (cleanLoop rs) = []
            \<or> nEffective (survivingCols line) < threshold (firstQueueFill (cleanLoop rs))"
    by simp_all
  note r = cleanRow_appended(1) [OF ne mixed noswap cells, of "length rs"]
    cleanRow_appended(2,3) [OF ne mixed noswap cells]
  show "let cols' = survivingCols line
                    @ take (threshold (firstQueueFill (cleanLoop rs))
                              - nEffective (survivingCols line))
                        (numericQueue (cleanLoop rs));
            row = trim (joinWith (ascii '' | '') cols')
        in kept (cleanLoop (rs @ [line])) = kept (cleanLoop rs) @ [row]
           \<and> splitToCols row = cols'
           \<and> \<not> list_all isNumericToken (splitToCols row)"
    unfolding Let_def cleanLoop_snoc using r by (intro conjI)
qed

theorem sanitizer_numeric_rows_witness:
  "kept (cleanLoop ([ascii ''ab | 3 | 1000''] @ [ascii ''7 | 8''])) = [ascii ''ab | 3 | 1000'']
   \<and> numericQueue (cleanLoop ([ascii ''ab | 3 | 1000''] @ [ascii ''7 | 8'']))
       = [ascii ''7'', ascii ''8'']
   \<and> kept (cleanLoop ([ascii ''7 | 8''] @ [ascii ''cd | 5''])) = [ascii ''cd | 5 | 7 | 8'']
   \<and> splitToCols (ascii ''cd | 5 | 7 | 8'') = [ascii ''cd'', ascii ''5'', ascii ''7'', ascii ''8'']
   \<and> \<not> list_all isNumericToken (splitToCols (ascii ''cd | 5 | 7 | 8''))"
proof -
  have s1: "survivingCols (ascii ''7 | 8'') = [ascii ''7'', ascii ''8'']" by code_simp
  have n1: "isNumericToken (ascii ''7'')" "isNumericToken (ascii ''8'')" by code_simp+
  have k1: "kept (cleanLoop [ascii ''ab | 3 | 1000'']) = [ascii ''ab | 3 | 1000'']"
    and q1: "numericQueue (cleanLoop [ascii ''ab | 3 | 1000'']) = []" by code_simp+
  have a: "kept (cleanLoop ([ascii ''ab | 3 | 1000''] @ [ascii ''7 | 8''])) = [ascii ''ab | 3 | 1000'']
     \<and> numericQueue (cleanLoop ([ascii ''ab | 3 | 1000''] @ [ascii ''7 | 8'']))
         = [ascii ''7'', ascii ''8'']"
    using sanitizer_numeric_rows [of "ascii ''7 | 8''" "[ascii ''ab | 3 | 1000'']"]
    by (simp add: s1 n1 k1 q1)
  have s2: "survivingCols (ascii ''cd | 5'') = [ascii ''cd'', ascii ''5'']" by code_simp
  have n2: "\<not> isNumericToken (ascii ''cd'')" by code_simp
  have k2: "kept (cleanLoop [ascii ''7 | 8'']) = []"
    and q2: "numericQueue (cleanLoop [ascii ''7 | 8'']) = [ascii ''7'', ascii ''8'']"
    and f2: "firstQueueFill (cleanLoop [ascii ''7 | 8''])" by code_simp+
  have e2: "nEffective [ascii ''cd'', ascii ''5''] = 2" by code_simp
  have j2: "trim (joinWith (ascii '' | '') [ascii ''cd'', ascii ''5'', ascii ''7'', ascii ''8''])
      = ascii ''cd | 5 | 7 | 8''" by code_simp
  have cols: "survivingCols (ascii ''cd | 5'')
      @ take (threshold (firstQueueFill (cleanLoop [ascii ''7 | 8'']))
                - nEffective (survivingCols (ascii ''cd | 5'')))
          (numericQueue (cleanLoop [ascii ''7 | 8'']))
      = [ascii ''cd'', ascii ''5'', ascii ''7'', ascii ''8'']"
    by (simp add: s2 q2 f2 e2 threshold_def)
  have hyp: "survivingCols (ascii ''cd | 5'') \<noteq> []
      \<and> \<not> list_all isNumericToken (survivingCols (ascii ''cd | 5''))
      \<and> (numericQueue (cleanLoop [ascii ''7 | 8'']) = []
          \<or> nEffective (survivingCols (ascii ''cd | 5''))
              < threshold (firstQueueFill (cleanLoop [ascii ''7 | 8''])))"
    by (simp add: s2 n2 e2 f2 threshold_def)
  note c = sanitizer_numeric_rows [of "ascii ''cd | 5''" "[ascii ''7 | 8'']",
      THEN conjunct2, THEN conjunct2, THEN mp, OF hyp]
  have b: "kept (cleanLoop ([ascii ''7 | 8''] @ [ascii ''cd | 5''])) = [ascii ''cd | 5 | 7 | 8'']
     \<and> splitToCols (ascii ''cd | 5 | 7 | 8'') = [ascii ''cd'', ascii ''5'', ascii ''7'', ascii ''8'']
     \<and> \<not> list_all isNumericToken (splitToCols (ascii ''cd | 5 | 7 | 8''))"
    using c [unfolded Let_def cols j2 k2 append_Nil] .
  show ?thesis using conjI [OF a b] unfolding conj_assoc .
qed

text \<open>
  Claim C2 as stated fails on the swap. The line "9" is queued; the next line has five columns
  and a quantity-like one, so its effective count 5 is not below the threshold 5, and its last
  column, the only one that is not numeric, is swapped for the queued "9". The kept row is
  "1 | 2 | 3 | 4 | 9".
\<close>

theorem sanitizer_swap_counterexample:
  "fst (cleanRowsWithRules [ascii ''9'', ascii ''1 | 2 | 3 | 4 | x'']) = [ascii ''1 | 2 | 3 | 4 | 9'']
   \<and> list_all isNumericToken (splitToCols (ascii ''1 | 2 | 3 | 4 | 9''))"
  by code_simp


end
